theory Spec2Isabelle
  imports Main "HOL-Library.Multiset"
begin

section \<open>The sliding-tile solver of \<^verbatim>\<open>PuzzleSolver.hpp\<close>\<close>

subsection \<open>Data model\<close>

text \<open>
  \<^verbatim>\<open>State\<close> is \<^verbatim>\<open>std::array<int, 9>\<close>: nine cells in row-major order, 0 the blank.
  It is modelled as a list of integers; every state the program handles has length 9.
  \<^verbatim>\<open>Move\<close> is a pair (row, column), \<^verbatim>\<open>Path\<close> a vector of moves. The \<^verbatim>\<open>int\<close> values of the
  program are modelled as unbounded integers: on a permutation of 0..8 every tile, index,
  heuristic value and g-score stays far below the 32-bit range.
\<close>

type_synonym State = "int list"
type_synonym Move = "int \<times> int"
type_synonym Path = "Move list"
type_synonym PQElement = "int \<times> State"

text \<open>Both call sites construct the solver with the default grid size 3.\<close>

definition grid_size :: int where
  "grid_size = 3"

definition goal_state :: State where
  "goal_state = [1, 2, 3, 4, 5, 6, 7, 8, 0]"

text \<open>Division and remainder on \<^verbatim>\<open>int\<close> truncate towards zero in C++.\<close>

definition cdiv :: "int \<Rightarrow> int \<Rightarrow> int" where
  "cdiv a b = sgn a * sgn b * (\<bar>a\<bar> div \<bar>b\<bar>)"

definition cmod :: "int \<Rightarrow> int \<Rightarrow> int" where
  "cmod a b = a - b * cdiv a b"

subsection \<open>The heuristic\<close>

text \<open>
  The loop of \<^verbatim>\<open>heuristic\<close> walks the cells with their index \<open>i\<close> and adds, for every
  non-blank tile, the row and column distance to the cell \<open>num - 1\<close>. The index is a
  \<^verbatim>\<open>size_t\<close>, so its division is the unsigned one.
\<close>

fun heuristic_loop :: "nat \<Rightarrow> State \<Rightarrow> int \<Rightarrow> int" where
  "heuristic_loop i [] distance = distance"
| "heuristic_loop i (num # rest) distance =
     heuristic_loop (i + 1) rest
       (if num \<noteq> 0 then
          (let goal_index = num - 1;
               current_r = int (i div nat grid_size);
               current_c = int (i mod nat grid_size);
               goal_r = cdiv goal_index grid_size;
               goal_c = cmod goal_index grid_size
           in distance + (\<bar>current_r - goal_r\<bar> + \<bar>current_c - goal_c\<bar>))
        else distance)"

definition heuristic :: "State \<Rightarrow> int" where
  "heuristic state = heuristic_loop 0 state 0"

subsection \<open>The priority queue\<close>

text \<open>
  \<^verbatim>\<open>open_heap\<close> is a \<^verbatim>\<open>std::priority_queue\<close> of pairs (f-score, state) under
  \<^verbatim>\<open>std::greater\<close>: \<^verbatim>\<open>top\<close> is a least element of the pair order, which compares the
  f-scores first and the arrays lexicographically second. The queue is modelled as the bag
  of its entries, kept in a list; \<open>pq_min\<close> selects a least entry and \<open>pq_pop\<close> removes
  one copy of it. The order is total and strict, so the least entry does not depend on the
  order of the pushes.
\<close>

fun state_less :: "State \<Rightarrow> State \<Rightarrow> bool" where
  "state_less [] [] = False"
| "state_less [] (y # ys) = True"
| "state_less (x # xs) [] = False"
| "state_less (x # xs) (y # ys) = (if x < y then True else if y < x then False else state_less xs ys)"

definition pq_less :: "PQElement \<Rightarrow> PQElement \<Rightarrow> bool" where
  "pq_less a b = (fst a < fst b \<or> (\<not> fst b < fst a \<and> state_less (snd a) (snd b)))"

fun pq_min :: "PQElement \<Rightarrow> PQElement list \<Rightarrow> PQElement" where
  "pq_min m [] = m"
| "pq_min m (x # xs) = pq_min (if pq_less x m then x else m) xs"

definition pq_push :: "PQElement \<Rightarrow> PQElement list \<Rightarrow> PQElement list" where
  "pq_push x h = x # h"

definition pq_pop :: "PQElement \<Rightarrow> PQElement list \<Rightarrow> PQElement list" where
  "pq_pop e h = remove1 e h"

subsection \<open>The search state\<close>

record search =
  open_heap :: "PQElement list"
  g_score :: "State \<rightharpoonup> int"
  came_from :: "State \<rightharpoonup> State \<times> Move"
  open_set_hash :: "State set"

text \<open>
  Two things can go wrong inside the loop: an array access outside the nine cells
  (undefined behaviour in C++), and \<^verbatim>\<open>g_score.at\<close> on a missing key
  (\<^verbatim>\<open>std::out_of_range\<close>).
\<close>

datatype error = Out_Of_Bounds | Out_Of_Range

text \<open>The scan for the blank: the first index holding 0, or the sentinel -1.\<close>

fun find_empty :: "nat \<Rightarrow> State \<Rightarrow> int" where
  "find_empty i [] = - 1"
| "find_empty i (x # xs) = (if x = 0 then int i else find_empty (i + 1) xs)"

definition in_bounds :: "int \<Rightarrow> bool" where
  "in_bounds i = (0 \<le> i \<and> i < 9)"

definition swap_cells :: "State \<Rightarrow> nat \<Rightarrow> nat \<Rightarrow> State" where
  "swap_cells s i j = s[i := s ! j, j := s ! i]"

definition moves :: "Move list" where
  "moves = [(0, 1), (0, - 1), (1, 0), (- 1, 0)]"

text \<open>The body of the \<^verbatim>\<open>for\<close> loop over the four offsets.\<close>

definition visit_neighbor ::
  "State \<Rightarrow> int \<Rightarrow> int \<Rightarrow> int \<Rightarrow> Move \<Rightarrow> search \<Rightarrow> error + search" where
  "visit_neighbor current_state empty_index empty_r empty_c move st =
     (let tile_r = empty_r + fst move;
          tile_c = empty_c + snd move
      in if tile_r \<ge> 0 \<and> tile_r < grid_size \<and> tile_c \<ge> 0 \<and> tile_c < grid_size then
           (let tile_index = tile_r * grid_size + tile_c
            in if \<not> (in_bounds empty_index \<and> in_bounds tile_index) then Inl Out_Of_Bounds
               else
                 (let neighbor_state = swap_cells current_state (nat empty_index) (nat tile_index)
                  in case g_score st current_state of
                       None \<Rightarrow> Inl Out_Of_Range
                     | Some g_current \<Rightarrow>
                         (let tentative_g_score = g_current + 1
                          in if (case g_score st neighbor_state of
                                   None \<Rightarrow> True
                                 | Some g_neighbor \<Rightarrow> tentative_g_score < g_neighbor)
                             then
                               (let st1 = st\<lparr>came_from := (came_from st)
                                               (neighbor_state \<mapsto> (current_state, (tile_r, tile_c))),
                                             g_score := (g_score st)
                                               (neighbor_state \<mapsto> tentative_g_score)\<rparr>;
                                    f_score = tentative_g_score + heuristic neighbor_state
                                in if neighbor_state \<notin> open_set_hash st1 then
                                     Inr (st1\<lparr>open_heap :=
                                                pq_push (f_score, neighbor_state) (open_heap st1),
                                              open_set_hash :=
                                                insert neighbor_state (open_set_hash st1)\<rparr>)
                                   else Inr st1)
                             else Inr st)))
         else Inr st)"

fun explore_neighbors ::
  "State \<Rightarrow> int \<Rightarrow> int \<Rightarrow> int \<Rightarrow> Move list \<Rightarrow> search \<Rightarrow> error + search" where
  "explore_neighbors current_state empty_index empty_r empty_c [] st = Inr st"
| "explore_neighbors current_state empty_index empty_r empty_c (move # rest) st =
     (case visit_neighbor current_state empty_index empty_r empty_c move st of
        Inl e \<Rightarrow> Inl e
      | Inr st' \<Rightarrow> explore_neighbors current_state empty_index empty_r empty_c rest st')"

text \<open>One expansion: locate the blank of the popped state and relax its neighbours.\<close>

definition expand :: "State \<Rightarrow> search \<Rightarrow> error + search" where
  "expand current_state st =
     (let empty_index = find_empty 0 current_state;
          empty_r = cdiv empty_index grid_size;
          empty_c = cmod empty_index grid_size
      in explore_neighbors current_state empty_index empty_r empty_c moves st)"

subsection \<open>Path reconstruction\<close>

text \<open>
  \<^verbatim>\<open>reconstruct_move_path\<close> follows the predecessor links while there is one. Nothing in
  the loop itself bounds the walk, so the model is a partial function: \<open>None\<close> is a walk
  that never ends.
\<close>

partial_function (option) reconstruct_loop ::
  "(State \<rightharpoonup> State \<times> Move) \<Rightarrow> State \<Rightarrow> Path \<Rightarrow> Path option" where
  "reconstruct_loop cf current_state total_path =
     (case cf current_state of
        None \<Rightarrow> Some total_path
      | Some record \<Rightarrow> reconstruct_loop cf (fst record) (total_path @ [snd record]))"

declare reconstruct_loop.simps [code]

definition reconstruct_move_path :: "(State \<rightharpoonup> State \<times> Move) \<Rightarrow> State \<Rightarrow> Path option" where
  "reconstruct_move_path cf current_state =
     map_option rev (reconstruct_loop cf current_state [])"

subsection \<open>The search loop\<close>

text \<open>
  One pass through the body of the \<^verbatim>\<open>while\<close> loop of \<^verbatim>\<open>solve_with_a_star\<close>, test
  included: \<open>Inl\<close> is a value the function returns with, \<open>Inr\<close> the search state the
  next pass starts from. In a returned value the outer \<open>option\<close> is termination of the
  reconstruction, \<open>Inl\<close> a failure, \<open>Inr None\<close> is \<^verbatim>\<open>std::nullopt\<close> and
  \<open>Inr (Some p)\<close> a returned path.
\<close>

definition iteration :: "search \<Rightarrow> (error + Path option) option + search" where
  "iteration st =
     (case open_heap st of
        [] \<Rightarrow> Inl (Some (Inr None))
      | x # xs \<Rightarrow>
          (let top_entry = pq_min x xs;
               current_state = snd top_entry;
               st1 = st\<lparr>open_heap := pq_pop top_entry (open_heap st),
                        open_set_hash := open_set_hash st - {current_state}\<rparr>
           in if current_state = goal_state then
                Inl (map_option (\<lambda>p. Inr (Some p))
                       (reconstruct_move_path (came_from st1) current_state))
              else
                (case expand current_state st1 of
                   Inl e \<Rightarrow> Inl (Some (Inl e))
                 | Inr st2 \<Rightarrow> Inr st2)))"

text \<open>The loop repeats the body; \<open>None\<close> is a loop that never returns.\<close>

partial_function (option) search_loop :: "search \<Rightarrow> (error + Path option) option" where
  "search_loop st =
     (case iteration st of
        Inl r \<Rightarrow> r
      | Inr st2 \<Rightarrow> search_loop st2)"

declare search_loop.simps [code]

text \<open>The search state after \<open>n\<close> complete passes, if the loop has not returned by then.\<close>

fun iterations :: "nat \<Rightarrow> search \<Rightarrow> search option" where
  "iterations 0 st = Some st"
| "iterations (Suc n) st =
     (case iteration st of
        Inl r \<Rightarrow> None
      | Inr st2 \<Rightarrow> iterations n st2)"

definition initial_search :: "State \<Rightarrow> search" where
  "initial_search initial_state =
     \<lparr>open_heap = pq_push (heuristic initial_state, initial_state) [],
      g_score = [initial_state \<mapsto> 0],
      came_from = Map.empty,
      open_set_hash = {initial_state}\<rparr>"

definition solve_with_a_star :: "State \<Rightarrow> (error + Path option) option" where
  "solve_with_a_star initial_state =
     (if initial_state = goal_state then Some (Inr (Some []))
      else search_loop (initial_search initial_state))"

subsection \<open>The binding of \<^verbatim>\<open>bindings.cpp\<close>\<close>

text \<open>
  The function exposed as \<^verbatim>\<open>solve\<close> receives a \<^verbatim>\<open>std::vector<int>\<close>. It throws a
  \<^verbatim>\<open>std::runtime_error\<close> when the size is not 9; otherwise it copies the first nine
  elements into a \<^verbatim>\<open>State\<close> and returns what the solver returns. \<open>Inl\<close> is the
  exception of the binding, \<open>Inr\<close> the outcome of the call to the solver.
\<close>

datatype binding_error = Runtime_Error string

definition binding_solve :: "int list \<Rightarrow> binding_error + (error + Path option) option" where
  "binding_solve state_list =
     (if length state_list \<noteq> 9 then
        Inl (Runtime_Error ''Input state must contain exactly 9 integers.'')
      else
        (let initial_state = take 9 state_list
         in Inr (solve_with_a_star initial_state)))"

subsection \<open>Legal moves, replay and reachability\<close>

text \<open>
  A state is valid when it is a permutation of 0..8: put in order, its cells read
  0, 1, ..., 8.
\<close>

definition valid_state :: "State \<Rightarrow> bool" where
  "valid_state s = (sort s = [0, 1, 2, 3, 4, 5, 6, 7, 8])"

text \<open>
  Replaying a move (row, column): the named cell lies on the grid and is orthogonally
  adjacent to the blank's cell, and its tile is swapped with the blank. A move that names
  any other cell cannot be replayed.
\<close>

definition apply_move :: "State \<Rightarrow> Move \<Rightarrow> State option" where
  "apply_move s m =
     (let e = find_empty 0 s; r = fst m; c = snd m
      in if in_bounds e \<and> 0 \<le> r \<and> r < 3 \<and> 0 \<le> c \<and> c < 3
            \<and> \<bar>r - e div 3\<bar> + \<bar>c - e mod 3\<bar> = 1
         then Some (swap_cells s (nat e) (nat (r * 3 + c)))
         else None)"

fun replay :: "State \<Rightarrow> Path \<Rightarrow> State option" where
  "replay s [] = Some s"
| "replay s (m # ms) = (case apply_move s m of None \<Rightarrow> None | Some s' \<Rightarrow> replay s' ms)"

definition reachable :: "State \<Rightarrow> State \<Rightarrow> bool" where
  "reachable s t = (\<exists>p. replay s p = Some t)"

subsection \<open>Relaxing one neighbour\<close>

text \<open>
  What the body of the \<^verbatim>\<open>for\<close> loop does to the search state once the neighbour
  \<open>n\<close> exists and the g-score \<open>gc\<close> of the expanded state has been read: record the
  better way to \<open>n\<close> and push \<open>n\<close> unless it is marked as present. The lemma
  \<open>visit_neighbor_relax\<close> below shows that \<open>visit_neighbor\<close> computes exactly this.
\<close>

definition improves :: "search \<Rightarrow> State \<Rightarrow> int \<Rightarrow> bool" where
  "improves st n gc = (case g_score st n of None \<Rightarrow> True | Some gn \<Rightarrow> gc + 1 < gn)"

definition relax :: "State \<Rightarrow> int \<Rightarrow> State \<Rightarrow> Move \<Rightarrow> search \<Rightarrow> search" where
  "relax cur gc n mv st =
     (if improves st n gc then
        (if n \<notin> open_set_hash st then
           st\<lparr>came_from := (came_from st)(n \<mapsto> (cur, mv)),
              g_score := (g_score st)(n \<mapsto> gc + 1),
              open_heap := pq_push (gc + 1 + heuristic n, n) (open_heap st),
              open_set_hash := insert n (open_set_hash st)\<rparr>
         else
           st\<lparr>came_from := (came_from st)(n \<mapsto> (cur, mv)),
              g_score := (g_score st)(n \<mapsto> gc + 1)\<rparr>)
      else st)"

subsection \<open>Invariants of the search\<close>

text \<open>
  The frontier and its mirror: no state has two entries in \<open>open_heap\<close>, and
  \<open>open_set_hash\<close> is the set of the states that have one.
\<close>

definition heap_inv :: "search \<Rightarrow> bool" where
  "heap_inv st =
     (distinct (map snd (open_heap st)) \<and> set (map snd (open_heap st)) = open_set_hash st)"

text \<open>
  The bookkeeping: every state in the frontier has a g-score; every state with a g-score
  is a permutation; the initial state has g-score 0 and no predecessor; g-scores are not
  negative; and every other state with a g-score has a predecessor record whose move
  replays from the predecessor to the state, the predecessor having a smaller g-score.
\<close>

definition search_inv :: "State \<Rightarrow> search \<Rightarrow> bool" where
  "search_inv init st =
     (heap_inv st
      \<and> open_set_hash st \<subseteq> dom (g_score st)
      \<and> dom (g_score st) \<subseteq> {s. valid_state s}
      \<and> g_score st init = Some 0
      \<and> came_from st init = None
      \<and> (\<forall>s gs. g_score st s = Some gs \<longrightarrow> 0 \<le> gs)
      \<and> (\<forall>s gs. g_score st s = Some gs \<longrightarrow> s \<noteq> init \<longrightarrow>
             (\<exists>p m gp. came_from st s = Some (p, m) \<and> apply_move p m = Some s
                       \<and> g_score st p = Some gp \<and> gp < gs)))"

text \<open>
  Exploration: a state with a g-score that is neither in the frontier nor in \<open>X\<close> (the
  state being expanded) has all its successors recorded; and the goal, once it has a
  g-score, is in the frontier.
\<close>

definition closed_inv :: "State set \<Rightarrow> search \<Rightarrow> bool" where
  "closed_inv X st =
     ((\<forall>s m s'. s \<in> dom (g_score st) \<longrightarrow> s \<notin> open_set_hash st \<longrightarrow> s \<notin> X \<longrightarrow>
          apply_move s m = Some s' \<longrightarrow> s' \<in> dom (g_score st))
      \<and> (goal_state \<in> dom (g_score st) \<longrightarrow> goal_state \<in> open_set_hash st))"

text \<open>The quantities that decrease: states without a g-score, the sum of the g-scores.\<close>

definition unseen :: "search \<Rightarrow> nat" where
  "unseen st = card ({s. valid_state s} - dom (g_score st))"

definition g_total :: "search \<Rightarrow> nat" where
  "g_total st = (\<Sum>s \<in> dom (g_score st). nat (the (g_score st s)))"

definition search_measure :: "search \<Rightarrow> nat \<times> nat \<times> nat" where
  "search_measure st = (unseen st, g_total st, length (open_heap st))"

subsection \<open>The Manhattan distance, as the specification words it\<close>

text \<open>
  The goal cell of a tile is the cell that holds it in the goal configuration; the
  Manhattan distance of two cells is the sum of their row and column distances; the
  specified heuristic sums, over the cells that hold a tile, the distance from the cell to
  the tile's goal cell.
\<close>

fun index_of :: "int \<Rightarrow> State \<Rightarrow> nat" where
  "index_of v [] = 0"
| "index_of v (x # xs) = (if x = v then 0 else Suc (index_of v xs))"

definition goal_cell :: "int \<Rightarrow> nat" where
  "goal_cell v = index_of v goal_state"

definition manhattan :: "nat \<Rightarrow> nat \<Rightarrow> int" where
  "manhattan a b = \<bar>int (a div 3) - int (b div 3)\<bar> + \<bar>int (a mod 3) - int (b mod 3)\<bar>"

definition manhattan_sum :: "State \<Rightarrow> int" where
  "manhattan_sum s =
     sum_list (map (\<lambda>i. if s ! i \<noteq> 0 then manhattan i (goal_cell (s ! i)) else 0)
                   [0..<length s])"

text \<open>What one pass of the loop of \<^verbatim>\<open>heuristic\<close> adds for the cell \<open>i\<close> holding \<open>num\<close>.\<close>

definition cell_cost :: "nat \<Rightarrow> int \<Rightarrow> int" where
  "cell_cost i num =
     (if num \<noteq> 0 then
        \<bar>int (i div 3) - cdiv (num - 1) 3\<bar> + \<bar>int (i mod 3) - cmod (num - 1) 3\<bar>
      else 0)"

subsection \<open>Permutation parity\<close>

text \<open>
  The parity class of a state is the parity of the number of inversions in the sequence of
  its tiles, read in row-major order with the blank left out: the pairs of tiles of which
  the larger comes first. On a grid of odd width this is the parity of the permutation
  once the blank's row is accounted for.
\<close>

fun inversions :: "int list \<Rightarrow> nat" where
  "inversions [] = 0"
| "inversions (x # xs) = length (filter (\<lambda>y. y < x) xs) + inversions xs"

definition tiles :: "State \<Rightarrow> int list" where
  "tiles s = filter (\<lambda>x. x \<noteq> 0) s"

definition parity_class :: "State \<Rightarrow> bool" where
  "parity_class s = even (inversions (tiles s))"

text \<open>Every state in the frontier has a g-score: what \<^verbatim>\<open>g_score.at\<close> relies on.\<close>

definition frontier_scored :: "search \<Rightarrow> bool" where
  "frontier_scored st = (set (map snd (open_heap st)) \<subseteq> dom (g_score st))"

text \<open>
  A frontier entry (f, s) was pushed with the g-score \<open>f - heuristic s\<close>; it is stale
  when that is no longer the g-score recorded for \<open>s\<close>.
\<close>

definition entry_stale :: "search \<Rightarrow> PQElement \<Rightarrow> bool" where
  "entry_stale st entry = (g_score st (snd entry) \<noteq> Some (fst entry - heuristic (snd entry)))"

text \<open>
  One pass either changes nothing but the frontier, which loses an entry, or it records a
  new state, or it lowers a g-score: the order the loop descends along.
\<close>

definition progress :: "search \<Rightarrow> search \<Rightarrow> bool" where
  "progress st' st =
     (unseen st' < unseen st \<or> (unseen st' = unseen st \<and> g_total st' < g_total st))"

definition search_order :: "(search \<times> search) set" where
  "search_order = inv_image (less_than <*lex*> less_than <*lex*> less_than) search_measure"

section \<open>Properties of the search\<close>

subsection \<open>Valid states\<close>

lemma cdiv_nonneg: "0 \<le> a \<Longrightarrow> cdiv a 3 = a div 3"
  by (cases "a = 0") (simp_all add: cdiv_def)

lemma cmod_nonneg: "0 \<le> a \<Longrightarrow> cmod a 3 = a mod 3"
  by (simp add: cmod_def cdiv_nonneg minus_mult_div_eq_mod)

lemma valid_state_mset: "valid_state s \<longleftrightarrow> mset s = mset [0, 1, 2, 3, 4, 5, 6, 7, 8 :: int]"
proof
  assume "valid_state s"
  then have "mset (sort s) = mset [0, 1, 2, 3, 4, 5, 6, 7, 8 :: int]"
    by (simp add: valid_state_def)
  then show "mset s = mset [0, 1, 2, 3, 4, 5, 6, 7, 8 :: int]" by simp
next
  assume "mset s = mset [0, 1, 2, 3, 4, 5, 6, 7, 8 :: int]"
  then have "sort s = [0, 1, 2, 3, 4, 5, 6, 7, 8]"
    by (intro properties_for_sort) simp_all
  then show "valid_state s" by (simp add: valid_state_def)
qed

lemma valid_state_length: "valid_state s \<Longrightarrow> length s = 9"
  using mset_eq_length [of s "[0, 1, 2, 3, 4, 5, 6, 7, 8 :: int]"] by (simp add: valid_state_mset)

lemma valid_state_distinct: "valid_state s \<Longrightarrow> distinct s"
  using mset_eq_imp_distinct_iff [of s "[0, 1, 2, 3, 4, 5, 6, 7, 8 :: int]"] by (simp add: valid_state_mset)

lemma valid_state_set: "valid_state s \<Longrightarrow> set s = {0, 1, 2, 3, 4, 5, 6, 7, 8}"
  using mset_eq_setD [of s "[0, 1, 2, 3, 4, 5, 6, 7, 8 :: int]"] by (simp add: valid_state_mset)

lemma valid_state_swap:
  "valid_state s \<Longrightarrow> i < 9 \<Longrightarrow> j < 9 \<Longrightarrow> valid_state (swap_cells s i j)"
  using mset_swap [of j s i] by (simp add: valid_state_mset swap_cells_def valid_state_length)

lemma finite_valid_states: "finite {s. valid_state s}"
proof -
  have "{s. valid_state s} \<subseteq> {s. set s \<subseteq> {0, 1, 2, 3, 4, 5, 6, 7, 8} \<and> length s = 9}"
    by (auto simp: valid_state_set valid_state_length)
  moreover have "finite {s :: int list. set s \<subseteq> {0, 1, 2, 3, 4, 5, 6, 7, 8} \<and> length s = 9}"
    by (rule finite_lists_length_eq) simp
  ultimately show ?thesis by (rule finite_subset)
qed

lemma find_empty_found:
  "0 \<in> set s \<Longrightarrow> \<exists>k < length s. find_empty i s = int (i + k) \<and> s ! k = 0"
proof (induction s arbitrary: i)
  case Nil
  then show ?case by simp
next
  case (Cons x xs)
  show ?case
  proof (cases "x = 0")
    case True
    then show ?thesis by (intro exI [of _ 0]) simp
  next
    case False
    with Cons.prems have "0 \<in> set xs" by simp
    from Cons.IH [OF this, of "i + 1"] obtain k where
      "k < length xs" "find_empty (i + 1) xs = int (i + 1 + k)" "xs ! k = 0" by blast
    with False show ?thesis by (intro exI [of _ "Suc k"]) simp
  qed
qed

lemma find_empty_missing: "0 \<notin> set s \<Longrightarrow> find_empty i s = - 1"
  by (induction s arbitrary: i) auto

lemma valid_state_blank:
  assumes "valid_state s"
  obtains e where "e < 9" "find_empty 0 s = int e" "s ! e = 0"
proof -
  from assms have "0 \<in> set s" by (simp add: valid_state_set)
  from find_empty_found [OF this, of 0] valid_state_length [OF assms] that
  show ?thesis by auto
qed

subsection \<open>The moves of the code are the legal moves\<close>

lemma moves_abs: "mv \<in> set moves \<Longrightarrow> \<bar>fst mv\<bar> + \<bar>snd mv\<bar> = 1"
  by (auto simp: moves_def)

lemma tile_index_bounds:
  "0 \<le> tr \<Longrightarrow> tr < 3 \<Longrightarrow> 0 \<le> tc \<Longrightarrow> tc < 3 \<Longrightarrow> in_bounds (tr * 3 + tc)"
  by (simp add: in_bounds_def)

lemma move_apply:
  assumes "find_empty 0 cur = int e" "e < 9" "mv \<in> set moves"
    and "tr = int e div 3 + fst mv" "tc = int e mod 3 + snd mv"
    and "0 \<le> tr" "tr < 3" "0 \<le> tc" "tc < 3"
  shows "apply_move cur (tr, tc) = Some (swap_cells cur e (nat (tr * 3 + tc)))"
  using assms moves_abs [of mv] by (simp add: apply_move_def in_bounds_def)

lemma apply_move_is_move:
  assumes "apply_move cur m = Some s'"
  obtains e mv where "find_empty 0 cur = int e" "e < 9" "mv \<in> set moves"
    "m = (int e div 3 + fst mv, int e mod 3 + snd mv)"
    "0 \<le> fst m" "fst m < 3" "0 \<le> snd m" "snd m < 3"
    "s' = swap_cells cur e (nat (fst m * 3 + snd m))"
proof -
  define ei where "ei = find_empty 0 cur"
  from assms have b: "in_bounds ei" and g: "0 \<le> fst m" "fst m < 3" "0 \<le> snd m" "snd m < 3"
    and d: "\<bar>fst m - ei div 3\<bar> + \<bar>snd m - ei mod 3\<bar> = 1"
    and s: "s' = swap_cells cur (nat ei) (nat (fst m * 3 + snd m))"
    by (auto simp: apply_move_def Let_def ei_def split: if_splits)
  define mv where "mv = (fst m - ei div 3, snd m - ei mod 3)"
  from d have "mv \<in> set moves"
    unfolding mv_def moves_def by (simp) arith
  moreover have "m = (int (nat ei) div 3 + fst mv, int (nat ei) mod 3 + snd mv)"
    using b by (simp add: mv_def in_bounds_def)
  moreover have "find_empty 0 cur = int (nat ei)" "nat ei < 9"
    using b by (auto simp: ei_def in_bounds_def)
  ultimately show ?thesis using that g s by blast
qed

lemma visit_neighbor_relax:
  assumes "e < 9" "g_score st cur = Some gc"
  shows "visit_neighbor cur (int e) (cdiv (int e) grid_size) (cmod (int e) grid_size) mv st =
    Inr (let tr = int e div 3 + fst mv; tc = int e mod 3 + snd mv
         in if 0 \<le> tr \<and> tr < 3 \<and> 0 \<le> tc \<and> tc < 3
            then relax cur gc (swap_cells cur e (nat (tr * 3 + tc))) (tr, tc) st
            else st)"
proof -
  define tr where "tr = int e div 3 + fst mv"
  define tc where "tc = int e mod 3 + snd mv"
  have e: "in_bounds (int e)" using assms(1) by (simp add: in_bounds_def)
  show ?thesis
  proof (cases "0 \<le> tr \<and> tr < 3 \<and> 0 \<le> tc \<and> tc < 3")
    case True
    then have "in_bounds (tr * 3 + tc)" by (simp add: tile_index_bounds)
    with True e assms(2) show ?thesis
      unfolding visit_neighbor_def relax_def improves_def Let_def grid_size_def
      by (simp add: cdiv_nonneg cmod_nonneg tr_def [symmetric] tc_def [symmetric])
  next
    case False
    then have "\<not> (0 \<le> cdiv (int e) 3 + fst mv \<and> cdiv (int e) 3 + fst mv < 3
        \<and> 0 \<le> cmod (int e) 3 + snd mv \<and> cmod (int e) 3 + snd mv < 3)"
      by (simp add: cdiv_nonneg cmod_nonneg tr_def tc_def)
    then have "visit_neighbor cur (int e) (cdiv (int e) grid_size) (cmod (int e) grid_size) mv st
        = Inr st"
      unfolding visit_neighbor_def Let_def grid_size_def by (simp only: if_False)
    with False show ?thesis
      by (simp only: Let_def tr_def [symmetric] tc_def [symmetric] if_False)
  qed
qed

subsection \<open>Relaxing a neighbour keeps the invariants\<close>

lemma relax_unchanged: "\<not> improves st n gc \<Longrightarrow> relax cur gc n mv st = st"
  by (simp add: relax_def improves_def)

lemma relax_fields:
  assumes "improves st n gc"
  shows "g_score (relax cur gc n mv st) = (g_score st)(n \<mapsto> gc + 1)"
    and "came_from (relax cur gc n mv st) = (came_from st)(n \<mapsto> (cur, mv))"
    and "open_set_hash (relax cur gc n mv st) = insert n (open_set_hash st)"
    and "open_heap (relax cur gc n mv st) =
          (if n \<in> open_set_hash st then open_heap st
           else (gc + 1 + heuristic n, n) # open_heap st)"
  using assms by (auto simp: relax_def improves_def pq_push_def)

lemma relax_heap_inv:
  assumes "heap_inv st"
  shows "heap_inv (relax cur gc n mv st)"
proof (cases "improves st n gc")
  case True
  with assms show ?thesis
    by (auto simp: heap_inv_def relax_fields)
next
  case False
  with assms show ?thesis by (simp add: relax_unchanged)
qed

lemma relax_search_inv:
  assumes inv: "search_inv init st"
    and cur: "g_score st cur = Some gc"
    and mv: "apply_move cur mv = Some n"
    and n: "valid_state n"
  shows "search_inv init (relax cur gc n mv st)"
proof (cases "improves st n gc")
  case False
  with inv show ?thesis by (simp add: relax_unchanged)
next
  case True
  let ?st' = "relax cur gc n mv st"
  note f = relax_fields [OF True, of cur mv]
  from inv have h: "heap_inv st"
    and sub: "open_set_hash st \<subseteq> dom (g_score st)"
    and val: "dom (g_score st) \<subseteq> {s. valid_state s}"
    and i0: "g_score st init = Some 0"
    and c0: "came_from st init = None"
    and nn: "\<And>s gs. g_score st s = Some gs \<Longrightarrow> 0 \<le> gs"
    and par: "\<And>s gs. g_score st s = Some gs \<Longrightarrow> s \<noteq> init \<Longrightarrow>
             \<exists>p m gp. came_from st s = Some (p, m) \<and> apply_move p m = Some s
                       \<and> g_score st p = Some gp \<and> gp < gs"
    unfolding search_inv_def by blast+
  from nn [OF cur] have gc: "0 \<le> gc" .
  from True i0 gc have n_init: "n \<noteq> init"
    by (auto simp: improves_def)
  from True cur have n_cur: "n \<noteq> cur"
    by (auto simp: improves_def)
  have 1: "heap_inv ?st'" using h by (rule relax_heap_inv)
  have 2: "open_set_hash ?st' \<subseteq> dom (g_score ?st')"
    using sub by (auto simp: f)
  have 3: "dom (g_score ?st') \<subseteq> {s. valid_state s}"
    using val n by (auto simp: f)
  have 4: "g_score ?st' init = Some 0"
    using i0 n_init by (simp add: f)
  have 5: "came_from ?st' init = None"
    using c0 n_init by (simp add: f)
  have 6: "\<forall>s gs. g_score ?st' s = Some gs \<longrightarrow> 0 \<le> gs"
    using nn gc by (auto simp: f split: if_splits)
  have 7: "\<forall>s gs. g_score ?st' s = Some gs \<longrightarrow> s \<noteq> init \<longrightarrow>
             (\<exists>p m gp. came_from ?st' s = Some (p, m) \<and> apply_move p m = Some s
                       \<and> g_score ?st' p = Some gp \<and> gp < gs)"
  proof (intro allI impI)
    fix s gs
    assume s: "g_score ?st' s = Some gs" and si: "s \<noteq> init"
    show "\<exists>p m gp. came_from ?st' s = Some (p, m) \<and> apply_move p m = Some s
                       \<and> g_score ?st' p = Some gp \<and> gp < gs"
    proof (cases "s = n")
      case True
      with s have "gs = gc + 1" by (simp add: f)
      with True mv cur n_cur show ?thesis by (simp add: f)
    next
      case False
      with s have "g_score st s = Some gs" by (simp add: f)
      from par [OF this si] obtain p m gp where
        p: "came_from st s = Some (p, m)" "apply_move p m = Some s"
           "g_score st p = Some gp" "gp < gs" by blast
      show ?thesis
      proof (cases "p = n")
        case pn: True
        with p(3) True have "gc + 1 < gp" by (simp add: improves_def)
        with p pn False show ?thesis by (simp add: f)
      next
        case pn: False
        with p False show ?thesis by (simp add: f)
      qed
    qed
  qed
  from 1 2 3 4 5 6 7 show ?thesis unfolding search_inv_def by blast
qed

lemma relax_dom: "dom (g_score st) \<subseteq> dom (g_score (relax cur gc n mv st))"
  by (cases "improves st n gc") (auto simp: relax_fields relax_unchanged)

lemma relax_records: "n \<in> dom (g_score (relax cur gc n mv st))"
  by (cases "improves st n gc") (auto simp: relax_fields relax_unchanged improves_def split: option.splits)

lemma relax_keeps_cur:
  "g_score st cur = Some gc \<Longrightarrow> g_score (relax cur gc n mv st) cur = Some gc"
  by (cases "improves st n gc") (auto simp: relax_fields relax_unchanged improves_def)

lemma relax_closed_inv:
  assumes "closed_inv X st" "open_set_hash st \<subseteq> dom (g_score st)"
  shows "closed_inv X (relax cur gc n mv st)"
proof (cases "improves st n gc")
  case False
  with assms show ?thesis by (simp add: relax_unchanged)
next
  case True
  note f = relax_fields [OF True, of cur mv]
  from assms show ?thesis
    unfolding closed_inv_def f by (simp add: subset_iff)
qed

subsection \<open>Progress of one expansion\<close>

lemma progress_trans: "progress a b \<Longrightarrow> progress b c \<Longrightarrow> progress a c"
  by (auto simp: progress_def)

lemma finite_dom_g: "search_inv init st \<Longrightarrow> finite (dom (g_score st))"
  unfolding search_inv_def using finite_valid_states by (blast intro: finite_subset)

lemma relax_progress:
  assumes inv: "search_inv init st" and cur: "g_score st cur = Some gc" and n: "valid_state n"
  shows "relax cur gc n mv st = st \<or> progress (relax cur gc n mv st) st"
proof (cases "improves st n gc")
  case False
  then show ?thesis by (simp add: relax_unchanged)
next
  case True
  let ?st' = "relax cur gc n mv st"
  note f = relax_fields [OF True, of cur mv]
  from inv cur have gc: "0 \<le> gc" unfolding search_inv_def by blast
  have fin: "finite (dom (g_score st))" using inv by (rule finite_dom_g)
  show ?thesis
  proof (cases "g_score st n")
    case None
    then have mem: "n \<in> {s. valid_state s} - dom (g_score st)" using n by auto
    have eq: "{s. valid_state s} - dom (g_score ?st') =
        ({s. valid_state s} - dom (g_score st)) - {n}"
      by (auto simp: f)
    have fin': "finite ({s. valid_state s} - dom (g_score st))"
      using finite_valid_states by simp
    have "unseen ?st' < unseen st"
      unfolding unseen_def eq using fin' mem by (rule card_Diff1_less)
    then show ?thesis by (simp add: progress_def)
  next
    case (Some gn)
    with True have lt: "gc + 1 < gn" by (simp add: improves_def)
    from Some have nd: "n \<in> dom (g_score st)" by auto
    then have dom_eq: "dom (g_score ?st') = dom (g_score st)" by (auto simp: f)
    have "unseen ?st' = unseen st" by (simp add: unseen_def dom_eq)
    moreover have "g_total ?st' < g_total st"
    proof -
      have "g_total ?st' = (\<Sum>s \<in> dom (g_score st). nat (the (((g_score st)(n \<mapsto> gc + 1)) s)))"
        by (simp add: g_total_def f insert_absorb [OF nd])
      also have "\<dots> = nat (gc + 1) +
          (\<Sum>s \<in> dom (g_score st) - {n}. nat (the (((g_score st)(n \<mapsto> gc + 1)) s)))"
        using fin nd by (simp add: sum.remove)
      also have "(\<Sum>s \<in> dom (g_score st) - {n}. nat (the (((g_score st)(n \<mapsto> gc + 1)) s)))
          = (\<Sum>s \<in> dom (g_score st) - {n}. nat (the (g_score st s)))"
        by (rule sum.cong) auto
      also have "nat (gc + 1) + \<dots> < nat gn + \<dots>"
        using lt gc by simp
      also have "nat gn + (\<Sum>s \<in> dom (g_score st) - {n}. nat (the (g_score st s))) = g_total st"
        using fin nd Some by (simp add: g_total_def sum.remove [where x = n])
      finally show ?thesis .
    qed
    ultimately show ?thesis by (simp add: progress_def)
  qed
qed

lemma explore_neighbors_inv:
  assumes e: "find_empty 0 cur = int e" "e < 9" and vc: "valid_state cur"
  shows "set ms \<subseteq> set moves \<Longrightarrow> search_inv init st \<Longrightarrow> closed_inv {cur} st
    \<Longrightarrow> g_score st cur = Some gc \<Longrightarrow>
    \<exists>st'. explore_neighbors cur (int e) (cdiv (int e) grid_size) (cmod (int e) grid_size) ms st
            = Inr st'
      \<and> search_inv init st' \<and> closed_inv {cur} st' \<and> g_score st' cur = Some gc
      \<and> dom (g_score st) \<subseteq> dom (g_score st')
      \<and> (\<forall>mv \<in> set ms. \<forall>s'. apply_move cur (int e div 3 + fst mv, int e mod 3 + snd mv) = Some s'
            \<longrightarrow> s' \<in> dom (g_score st'))
      \<and> (st' = st \<or> progress st' st)"
proof (induction ms arbitrary: st)
  case Nil
  then show ?case by simp
next
  case (Cons mv ms)
  define tr where "tr = int e div 3 + fst mv"
  define tc where "tc = int e mod 3 + snd mv"
  define n where "n = swap_cells cur e (nat (tr * 3 + tc))"
  define st1 where "st1 = (if 0 \<le> tr \<and> tr < 3 \<and> 0 \<le> tc \<and> tc < 3
      then relax cur gc n (tr, tc) st else st)"
  have visit: "visit_neighbor cur (int e) (cdiv (int e) grid_size) (cmod (int e) grid_size) mv st
      = Inr st1"
    using visit_neighbor_relax [OF e(2) Cons.prems(4), of mv]
    by (simp add: st1_def n_def tr_def tc_def Let_def)
  from Cons.prems(1) have mv: "mv \<in> set moves" and ms: "set ms \<subseteq> set moves" by auto
  have st1: "search_inv init st1 \<and> closed_inv {cur} st1 \<and> g_score st1 cur = Some gc
      \<and> dom (g_score st) \<subseteq> dom (g_score st1)
      \<and> (\<forall>s'. apply_move cur (tr, tc) = Some s' \<longrightarrow> s' \<in> dom (g_score st1))
      \<and> (st1 = st \<or> progress st1 st)"
  proof (cases "0 \<le> tr \<and> tr < 3 \<and> 0 \<le> tc \<and> tc < 3")
    case True
    then have eq: "st1 = relax cur gc n (tr, tc) st" by (simp add: st1_def)
    from True have am: "apply_move cur (tr, tc) = Some n"
      unfolding n_def using move_apply [OF e mv tr_def tc_def] by simp
    from True have "nat (tr * 3 + tc) < 9" by auto
    then have vn: "valid_state n"
      unfolding n_def using vc e(2) by (simp add: valid_state_swap)
    from Cons.prems(2) have sub: "open_set_hash st \<subseteq> dom (g_score st)"
      by (simp add: search_inv_def)
    show ?thesis
      unfolding eq
      using relax_search_inv [OF Cons.prems(2) Cons.prems(4) am vn]
        relax_closed_inv [OF Cons.prems(3) sub, of cur gc n "(tr, tc)"]
        relax_keeps_cur [OF Cons.prems(4), of n "(tr, tc)"]
        relax_dom [of st cur gc n "(tr, tc)"]
        relax_records [of n cur gc "(tr, tc)" st]
        relax_progress [OF Cons.prems(2) Cons.prems(4) vn, of "(tr, tc)"] am
      by simp
  next
    case False
    then have eq: "st1 = st" unfolding st1_def by (simp only: if_False)
    from False have "apply_move cur (tr, tc) = None"
      by (auto simp: apply_move_def Let_def)
    with Cons.prems show ?thesis by (simp add: eq)
  qed
  from st1 Cons.IH [OF ms, of st1] obtain st' where
    st': "explore_neighbors cur (int e) (cdiv (int e) grid_size) (cmod (int e) grid_size) ms st1
            = Inr st'"
      "search_inv init st'" "closed_inv {cur} st'" "g_score st' cur = Some gc"
      "dom (g_score st1) \<subseteq> dom (g_score st')"
      "\<forall>mv \<in> set ms. \<forall>s'. apply_move cur (int e div 3 + fst mv, int e mod 3 + snd mv) = Some s'
            \<longrightarrow> s' \<in> dom (g_score st')"
      "st' = st1 \<or> progress st' st1"
    by blast
  have "st' = st \<or> progress st' st"
    using st1 st'(7) by (auto intro: progress_trans)
  moreover have "\<forall>s'. apply_move cur (tr, tc) = Some s' \<longrightarrow> s' \<in> dom (g_score st')"
    using st1 st'(5) by blast
  moreover have "dom (g_score st) \<subseteq> dom (g_score st')"
    using st1 st'(5) by blast
  ultimately show ?case
    using visit st' by (simp add: tr_def tc_def)
qed

subsection \<open>Popping, reconstruction, closure\<close>

lemma pq_min_mem: "pq_min m xs \<in> set (m # xs)"
  by (induction xs arbitrary: m) (auto split: if_splits)

lemma remove1_states:
  assumes "distinct (map snd h)" "x \<in> set h"
  shows "distinct (map snd (remove1 x h))"
    and "set (map snd (remove1 x h)) = set (map snd h) - {snd x}"
  using assms
proof (induction h)
  case Nil
  { case 1 then show ?case by simp }
  { case 2 then show ?case by simp }
next
  case (Cons a h)
  { case 1
    with Cons.IH show ?case
      by (auto dest: notin_set_remove1 [rotated] simp: image_iff) }
  { case 2
    with Cons.IH show ?case
      by (cases "x = a") (auto simp: image_iff) }
qed

lemma replay_append:
  "replay s (p @ q) = (case replay s p of None \<Rightarrow> None | Some t \<Rightarrow> replay t q)"
  by (induction p arbitrary: s) (auto split: option.splits)

lemma reconstruct_loop_path:
  assumes inv: "search_inv init st"
  shows "g_score st s = Some gs \<Longrightarrow>
    \<exists>p. reconstruct_loop (came_from st) s acc = Some (acc @ p) \<and> replay init (rev p) = Some s"
proof (induction "nat gs" arbitrary: s gs acc rule: less_induct)
  case less
  from inv have c0: "came_from st init = None"
    and nn: "\<And>s gs. g_score st s = Some gs \<Longrightarrow> 0 \<le> gs"
    and par: "\<And>s gs. g_score st s = Some gs \<Longrightarrow> s \<noteq> init \<Longrightarrow>
             \<exists>p m gp. came_from st s = Some (p, m) \<and> apply_move p m = Some s
                       \<and> g_score st p = Some gp \<and> gp < gs"
    unfolding search_inv_def by blast+
  show ?case
  proof (cases "s = init")
    case True
    with c0 show ?thesis
      by (subst reconstruct_loop.simps) simp
  next
    case False
    from par [OF less.prems False] obtain p m gp where
      p: "came_from st s = Some (p, m)" "apply_move p m = Some s"
         "g_score st p = Some gp" "gp < gs" by blast
    from nn [OF p(3)] p(4) have "nat gp < nat gs" by simp
    from less.hyps [OF this p(3), of "acc @ [m]"] obtain q where
      q: "reconstruct_loop (came_from st) p (acc @ [m]) = Some (acc @ [m] @ q)"
         "replay init (rev q) = Some p" by auto
    have "reconstruct_loop (came_from st) s acc = Some (acc @ (m # q))"
      using p(1) q(1) by (subst reconstruct_loop.simps) simp
    moreover have "replay init (rev (m # q)) = Some s"
      using q(2) p(2) by (simp add: replay_append)
    ultimately show ?thesis by blast
  qed
qed

lemma reconstruct_move_path_replay:
  assumes "search_inv init st" "g_score st s = Some gs"
  shows "\<exists>p. reconstruct_move_path (came_from st) s = Some p \<and> replay init p = Some s"
  using reconstruct_loop_path [OF assms, of "[]"] by (auto simp: reconstruct_move_path_def)

lemma closed_reachable:
  assumes cl: "closed_inv {} st" and op: "open_set_hash st = {}"
  shows "replay s p = Some t \<Longrightarrow> s \<in> dom (g_score st) \<Longrightarrow> t \<in> dom (g_score st)"
proof (induction p arbitrary: s)
  case Nil
  then show ?case by simp
next
  case (Cons m p)
  from Cons.prems(1) obtain s' where s': "apply_move s m = Some s'" "replay s' p = Some t"
    by (auto split: option.splits)
  from cl op Cons.prems(2) s'(1) have "s' \<in> dom (g_score st)"
    unfolding closed_inv_def by blast
  with Cons.IH s'(2) show ?case by blast
qed

subsection \<open>One pass of the loop, and the loop\<close>

lemma wf_search_order: "wf search_order"
  unfolding search_order_def by (intro wf_inv_image wf_lex_prod wf_less_than)

lemma iteration_step:
  assumes inv: "search_inv init st" and cl: "closed_inv {} st"
  shows "(iteration st = Inl (Some (Inr None)) \<and> open_heap st = []
            \<and> \<not> reachable init goal_state)
       \<or> (\<exists>p. iteration st = Inl (Some (Inr (Some p))) \<and> replay init p = Some goal_state)
       \<or> (\<exists>st2. iteration st = Inr st2 \<and> search_inv init st2 \<and> closed_inv {} st2
              \<and> (st2, st) \<in> search_order
              \<and> (\<forall>x xs m s'. open_heap st = x # xs \<longrightarrow>
                     apply_move (snd (pq_min x xs)) m = Some s' \<longrightarrow> s' \<in> dom (g_score st2)))"
proof (cases "open_heap st")
  case Nil
  from inv Nil have op: "open_set_hash st = {}"
    by (auto simp: search_inv_def heap_inv_def)
  from inv have i0: "init \<in> dom (g_score st)" by (auto simp: search_inv_def)
  have "\<not> reachable init goal_state"
  proof
    assume "reachable init goal_state"
    then obtain p where "replay init p = Some goal_state" by (auto simp: reachable_def)
    from closed_reachable [OF cl op this i0] cl op show False
      by (simp add: closed_inv_def)
  qed
  with Nil show ?thesis by (simp add: iteration_def)
next
  case (Cons x xs)
  define top_entry where "top_entry = pq_min x xs"
  define cur where "cur = snd top_entry"
  define st1 where "st1 = st\<lparr>open_heap := pq_pop top_entry (open_heap st),
                        open_set_hash := open_set_hash st - {cur}\<rparr>"
  from inv have h: "heap_inv st"
    and sub: "open_set_hash st \<subseteq> dom (g_score st)"
    and val: "dom (g_score st) \<subseteq> {s. valid_state s}"
    unfolding search_inv_def by blast+
  have top: "top_entry \<in> set (open_heap st)"
    unfolding top_entry_def Cons by (rule pq_min_mem)
  then have cur_open: "cur \<in> open_set_hash st"
    using h by (auto simp: heap_inv_def cur_def)
  with sub obtain gc where gc: "g_score st cur = Some gc" by auto
  with val have vc: "valid_state cur" by auto
  have it: "iteration st =
      (if cur = goal_state then
         Inl (map_option (\<lambda>p. Inr (Some p)) (reconstruct_move_path (came_from st1) cur))
       else (case expand cur st1 of Inl e \<Rightarrow> Inl (Some (Inl e)) | Inr st2 \<Rightarrow> Inr st2))"
    by (simp add: iteration_def Cons Let_def st1_def cur_def top_entry_def)
  show ?thesis
  proof (cases "cur = goal_state")
    case True
    have "came_from st1 = came_from st" by (simp add: st1_def)
    with reconstruct_move_path_replay [OF inv gc] True it show ?thesis
      by auto
  next
    case False
    have h1: "heap_inv st1"
      using h remove1_states [OF _ top] 
      by (simp add: heap_inv_def st1_def pq_pop_def cur_def)
    have inv1: "search_inv init st1"
      using inv h1 unfolding search_inv_def by (auto simp: st1_def)
    have cl1: "closed_inv {cur} st1"
      using cl False unfolding closed_inv_def by (simp add: st1_def) blast
    have gc1: "g_score st1 cur = Some gc" using gc by (simp add: st1_def)
    from vc obtain e where e: "e < 9" "find_empty 0 cur = int e" "cur ! e = 0"
      by (rule valid_state_blank)
    from explore_neighbors_inv [OF e(2) e(1) vc subset_refl inv1 cl1 gc1]
    obtain st2 where st2:
      "explore_neighbors cur (int e) (cdiv (int e) grid_size) (cmod (int e) grid_size) moves st1
          = Inr st2"
      "search_inv init st2" "closed_inv {cur} st2"
      "\<forall>mv \<in> set moves. \<forall>s'. apply_move cur (int e div 3 + fst mv, int e mod 3 + snd mv) = Some s'
            \<longrightarrow> s' \<in> dom (g_score st2)"
      "st2 = st1 \<or> progress st2 st1"
      by blast
    have ex: "expand cur st1 = Inr st2"
      using st2(1) by (simp add: expand_def Let_def e(2))
    have succ: "s' \<in> dom (g_score st2)" if "apply_move cur m = Some s'" for m s'
    proof -
      from that obtain e' mv where "find_empty 0 cur = int e'" "mv \<in> set moves"
        "m = (int e' div 3 + fst mv, int e' mod 3 + snd mv)"
        by (rule apply_move_is_move)
      with e(2) st2(4) that show ?thesis by auto
    qed
    have cl2: "closed_inv {} st2"
      using st2(3) succ unfolding closed_inv_def by blast
    have ord: "(st2, st) \<in> search_order"
    proof -
      have m1: "unseen st1 = unseen st" "g_total st1 = g_total st"
        by (simp_all add: unseen_def g_total_def st1_def)
      have "open_heap st \<noteq> []" using Cons by simp
      then have len: "length (open_heap st1) < length (open_heap st)"
        using top by (simp add: st1_def pq_pop_def length_remove1)
      from st2(5) show ?thesis
      proof
        assume "st2 = st1"
        with m1 len show ?thesis
          by (simp add: search_order_def search_measure_def)
      next
        assume "progress st2 st1"
        with m1 show ?thesis
          by (auto simp: search_order_def search_measure_def progress_def)
      qed
    qed
    have "\<forall>x' xs' m s'. open_heap st = x' # xs' \<longrightarrow>
        apply_move (snd (pq_min x' xs')) m = Some s' \<longrightarrow> s' \<in> dom (g_score st2)"
      using succ by (simp add: Cons cur_def top_entry_def)
    with it False ex st2(2) cl2 ord show ?thesis by simp
  qed
qed

lemma search_loop_total:
  assumes "search_inv init st" "closed_inv {} st"
  shows "\<exists>r. search_loop st = Some (Inr r)
     \<and> (case r of None \<Rightarrow> \<not> reachable init goal_state
                 | Some p \<Rightarrow> replay init p = Some goal_state)"
  using wf_search_order assms
proof (induction st rule: wf_induct_rule)
  case (less st)
  from iteration_step [OF less.prems]
  consider "iteration st = Inl (Some (Inr None))" "\<not> reachable init goal_state"
    | p where "iteration st = Inl (Some (Inr (Some p)))" "replay init p = Some goal_state"
    | st2 where "iteration st = Inr st2" "search_inv init st2" "closed_inv {} st2"
        "(st2, st) \<in> search_order"
    by blast
  then show ?case
  proof cases
    case 1
    then show ?thesis by (subst search_loop.simps) simp
  next
    case 2
    then show ?thesis by (subst search_loop.simps) simp
  next
    case 3
    from less.IH [OF 3(4) 3(2) 3(3)] 3(1) show ?thesis
      by (subst search_loop.simps) simp
  qed
qed

lemma initial_search_inv:
  assumes "valid_state init"
  shows "search_inv init (initial_search init)"
  using assms by (simp add: search_inv_def heap_inv_def initial_search_def pq_push_def)

lemma initial_closed_inv: "closed_inv {} (initial_search init)"
  by (simp add: closed_inv_def initial_search_def)

lemma solve_total:
  assumes "valid_state init"
  shows "\<exists>r. solve_with_a_star init = Some (Inr r)
     \<and> (case r of None \<Rightarrow> \<not> reachable init goal_state
                 | Some p \<Rightarrow> replay init p = Some goal_state)"
proof (cases "init = goal_state")
  case True
  then show ?thesis by (simp add: solve_with_a_star_def)
next
  case False
  with search_loop_total [OF initial_search_inv [OF assms] initial_closed_inv]
  show ?thesis by (simp add: solve_with_a_star_def)
qed

subsection \<open>The heuristic as a sum; one move changes it by at most one\<close>

lemma heuristic_loop_sum:
  "heuristic_loop i s d = d + (\<Sum>k<length s. cell_cost (i + k) (s ! k))"
proof (induction s arbitrary: i d)
  case Nil
  then show ?case by simp
next
  case (Cons x xs)
  have "(\<Sum>k<length (x # xs). cell_cost (i + k) ((x # xs) ! k)) =
      cell_cost i x + (\<Sum>k<length xs. cell_cost (i + 1 + k) (xs ! k))"
    by (simp only: length_Cons sum.lessThan_Suc_shift) simp
  moreover have "heuristic_loop i (x # xs) d = heuristic_loop (i + 1) xs (d + cell_cost i x)"
    by (simp add: cell_cost_def Let_def grid_size_def)
  ultimately show ?case by (simp add: Cons.IH)
qed

lemma heuristic_sum: "heuristic s = (\<Sum>k<length s. cell_cost k (s ! k))"
  by (simp add: heuristic_def heuristic_loop_sum)

lemma cell_cost_nonneg: "0 \<le> cell_cost i v"
  by (simp add: cell_cost_def)

lemma heuristic_nonneg: "0 \<le> heuristic s"
  unfolding heuristic_sum by (intro sum_nonneg cell_cost_nonneg)

lemma cell_cost_manhattan:
  assumes "1 \<le> v" "v \<le> 8"
  shows "cell_cost i v = manhattan i (goal_cell v)"
proof -
  from assms have "v = 1 \<or> v = 2 \<or> v = 3 \<or> v = 4 \<or> v = 5 \<or> v = 6 \<or> v = 7 \<or> v = 8"
    by arith
  then show ?thesis
    by (elim disjE)
      (simp_all add: cell_cost_def manhattan_def goal_cell_def goal_state_def cdiv_def cmod_def)
qed

lemma heuristic_manhattan_sum:
  assumes "valid_state s"
  shows "heuristic s = manhattan_sum s"
proof -
  have "cell_cost k (s ! k) = (if s ! k \<noteq> 0 then manhattan k (goal_cell (s ! k)) else 0)"
    if "k < length s" for k
  proof (cases "s ! k = 0")
    case True
    then show ?thesis by (simp add: cell_cost_def)
  next
    case False
    from that have "s ! k \<in> set s" by simp
    with assms have "0 \<le> s ! k" "s ! k \<le> 8" by (auto simp: valid_state_set)
    with False show ?thesis by (simp add: cell_cost_manhattan)
  qed
  then have "(\<Sum>k<length s. cell_cost k (s ! k)) =
      (\<Sum>k<length s. if s ! k \<noteq> 0 then manhattan k (goal_cell (s ! k)) else 0)"
    by (intro sum.cong) simp_all
  also have "\<dots> = manhattan_sum s"
    by (simp add: manhattan_sum_def interv_sum_list_conv_sum_set_nat atLeast0LessThan)
  finally show ?thesis by (simp add: heuristic_sum)
qed

lemma cell_cost_adjacent:
  assumes "\<bar>int t div 3 - int e div 3\<bar> + \<bar>int t mod 3 - int e mod 3\<bar> = 1"
  shows "cell_cost t v \<le> cell_cost e v + 1"
proof (cases "v = 0")
  case True
  then show ?thesis by (simp add: cell_cost_def)
next
  case False
  have "\<bar>a - g\<bar> + \<bar>b - h\<bar> \<le> \<bar>a' - g\<bar> + \<bar>b' - h\<bar> + 1"
    if "\<bar>a - a'\<bar> + \<bar>b - b'\<bar> = 1" for a b a' b' g h :: int
    using that by arith
  from this [OF assms] False show ?thesis
    by (simp add: cell_cost_def zdiv_int zmod_int)
qed

lemma heuristic_swap:
  assumes len: "length s = 9" and e: "e < 9" and t: "t < 9" and et: "e \<noteq> t"
    and blank: "s ! e = 0"
  shows "heuristic s + cell_cost e (s ! t) = heuristic (swap_cells s e t) + cell_cost t (s ! t)"
proof -
  let ?s' = "swap_cells s e t"
  let ?R = "{..<9} - {e} - {t}"
  have nth: "?s' ! k = (if k = t then 0 else if k = e then s ! t else s ! k)" if "k < 9" for k
    using that len e t et blank by (auto simp: swap_cells_def nth_list_update)
  have split: "(\<Sum>k<9. f k) = f e + (f t + sum f ?R)" for f :: "nat \<Rightarrow> int"
    using e t et by (simp add: sum.remove [where x = e] sum.remove [where x = t])
  have "heuristic ?s' = (\<Sum>k<9. cell_cost k (?s' ! k))"
    by (simp add: heuristic_sum swap_cells_def len)
  also have "\<dots> = cell_cost e (?s' ! e) + (cell_cost t (?s' ! t)
      + (\<Sum>k \<in> ?R. cell_cost k (?s' ! k)))"
    by (rule split)
  also have "(\<Sum>k \<in> ?R. cell_cost k (?s' ! k)) = (\<Sum>k \<in> ?R. cell_cost k (s ! k))"
    by (rule sum.cong) (auto simp: nth)
  finally have 1: "heuristic ?s' = cell_cost e (s ! t) + (\<Sum>k \<in> ?R. cell_cost k (s ! k))"
    using e t et by (simp add: nth cell_cost_def)
  have "heuristic s = (\<Sum>k<9. cell_cost k (s ! k))"
    by (simp add: heuristic_sum len)
  also have "\<dots> = cell_cost e (s ! e) + (cell_cost t (s ! t)
      + (\<Sum>k \<in> ?R. cell_cost k (s ! k)))"
    by (rule split)
  finally have 2: "heuristic s = cell_cost t (s ! t) + (\<Sum>k \<in> ?R. cell_cost k (s ! k))"
    using blank by (simp add: cell_cost_def)
  from 1 2 show ?thesis by simp
qed

lemma heuristic_step:
  assumes v: "valid_state s" and m: "apply_move s m = Some s'"
  shows "heuristic s \<le> heuristic s' + 1"
proof -
  from m obtain e mv where e: "find_empty 0 s = int e" "e < 9" and mv: "mv \<in> set moves"
    and meq: "m = (int e div 3 + fst mv, int e mod 3 + snd mv)"
    and grid: "0 \<le> fst m" "fst m < 3" "0 \<le> snd m" "snd m < 3"
    and s': "s' = swap_cells s e (nat (fst m * 3 + snd m))"
    by (rule apply_move_is_move)
  define t where "t = nat (fst m * 3 + snd m)"
  from grid have t9: "t < 9" by (auto simp: t_def)
  from grid have tint: "int t = fst m * 3 + snd m" by (simp add: t_def)
  from grid have tdiv: "int t div 3 = fst m" and tmod: "int t mod 3 = snd m"
    unfolding tint by simp_all
  from v obtain e' where "e' < 9" "find_empty 0 s = int e'" "s ! e' = 0"
    by (rule valid_state_blank)
  with e have blank: "s ! e = 0" by simp
  have adj: "\<bar>int t div 3 - int e div 3\<bar> + \<bar>int t mod 3 - int e mod 3\<bar> = 1"
    unfolding tdiv tmod using moves_abs [OF mv] by (simp add: meq)
  then have et: "e \<noteq> t" by auto
  from heuristic_swap [OF valid_state_length [OF v] e(2) t9 et blank]
    cell_cost_adjacent [OF adj, of "s ! t"]
  show ?thesis
    unfolding s' t_def [symmetric] by simp
qed

lemma apply_move_valid:
  assumes "valid_state s" "apply_move s m = Some s'"
  shows "valid_state s'"
proof -
  from assms(2) obtain e where "e < 9" "0 \<le> fst m" "fst m < 3" "0 \<le> snd m" "snd m < 3"
    "s' = swap_cells s e (nat (fst m * 3 + snd m))"
    by (rule apply_move_is_move)
  moreover from this have "nat (fst m * 3 + snd m) < 9" by auto
  ultimately show ?thesis using assms(1) by (simp add: valid_state_swap)
qed

lemma replay_valid: "valid_state s \<Longrightarrow> replay s p = Some t \<Longrightarrow> valid_state t"
proof (induction p arbitrary: s)
  case Nil
  then show ?case by simp
next
  case (Cons m p)
  from Cons.prems(2) obtain s' where "apply_move s m = Some s'" "replay s' p = Some t"
    by (auto split: option.splits)
  with Cons.IH Cons.prems(1) show ?case by (blast intro: apply_move_valid)
qed

lemma heuristic_goal: "heuristic goal_state = 0"
  by (simp add: heuristic_def goal_state_def grid_size_def cdiv_def cmod_def)

lemma heuristic_replay:
  "valid_state s \<Longrightarrow> replay s p = Some t \<Longrightarrow> heuristic s \<le> heuristic t + int (length p)"
proof (induction p arbitrary: s)
  case Nil
  then show ?case by simp
next
  case (Cons m p)
  from Cons.prems(2) obtain s' where s': "apply_move s m = Some s'" "replay s' p = Some t"
    by (auto split: option.splits)
  from Cons.IH [OF apply_move_valid [OF Cons.prems(1) s'(1)] s'(2)]
    heuristic_step [OF Cons.prems(1) s'(1)]
  show ?case by simp
qed

subsection \<open>A legal move keeps the parity class\<close>

lemma inversions_move_identity:
  "inversions (M @ v # Q) + length (filter (\<lambda>y. y < v) M)
     = inversions (v # M @ Q) + length (filter (\<lambda>y. v < y) M)"
  by (induction M) auto

lemma filter_less_greater:
  "(v :: int) \<notin> set M \<Longrightarrow>
     length (filter (\<lambda>y. y < v) M) + length (filter (\<lambda>y. v < y) M) = length M"
  by (induction M) auto

lemma inversions_move_parity:
  assumes "v \<notin> set M" "even (length M)"
  shows "even (inversions (M @ v # Q)) = even (inversions (v # M @ Q))"
proof -
  from filter_less_greater [OF assms(1)] assms(2)
  have "even (length (filter (\<lambda>y. y < v) M)) = even (length (filter (\<lambda>y. v < y) M))"
    by (metis even_add)
  with inversions_move_identity [of M v Q] show ?thesis
    by (metis even_add)
qed

lemma inversions_prefix_parity:
  assumes "v \<notin> set M" "even (length M)"
  shows "even (inversions (P @ M @ v # Q)) = even (inversions (P @ v # M @ Q))"
proof (induction P)
  case Nil
  from inversions_move_parity [OF assms] show ?case by simp
next
  case (Cons p P)
  have "length (filter (\<lambda>y. y < p) (P @ M @ v # Q)) = length (filter (\<lambda>y. y < p) (P @ v # M @ Q))"
    by simp
  with Cons show ?case by simp
qed

lemma swap_cells_append:
  "swap_cells (A @ x # M @ y # B) (length A) (Suc (length A + length M)) = A @ y # M @ x # B"
  by (simp add: swap_cells_def list_update_append nth_append)

lemma swap_cells_decomp:
  assumes "i < j" "j < length s"
  shows "s = take i s @ s ! i # take (j - i - 1) (drop (i + 1) s) @ s ! j # drop (j + 1) s"
    and "swap_cells s i j =
         take i s @ s ! j # take (j - i - 1) (drop (i + 1) s) @ s ! i # drop (j + 1) s"
proof -
  let ?A = "take i s" and ?M = "take (j - i - 1) (drop (i + 1) s)" and ?B = "drop (j + 1) s"
  have d1: "drop (i + 1) s = ?M @ drop (j - i - 1) (drop (i + 1) s)"
    by (rule append_take_drop_id [symmetric])
  have "drop (j - i - 1) (drop (i + 1) s) = drop j s" using assms by simp
  also have "\<dots> = s ! j # ?B" using assms by (simp add: Cons_nth_drop_Suc)
  finally have d2: "drop (i + 1) s = ?M @ s ! j # ?B" using d1 by simp
  have "s = ?A @ s ! i # drop (i + 1) s"
    using assms by (simp add: id_take_nth_drop [symmetric])
  with d2 show s: "s = ?A @ s ! i # ?M @ s ! j # ?B" by simp
  have lA: "length ?A = i" using assms by simp
  have lM: "Suc (length ?A + length ?M) = j" using assms by simp
  from swap_cells_append [of ?A "s ! i" ?M "s ! j" ?B]
  have "swap_cells (?A @ s ! i # ?M @ s ! j # ?B) i j = ?A @ s ! j # ?M @ s ! i # ?B"
    unfolding lM unfolding lA .
  with s show "swap_cells s i j = ?A @ s ! j # ?M @ s ! i # ?B" by simp
qed

lemma swap_cells_commute: "swap_cells s i j = swap_cells s j i"
  by (cases "i = j") (simp_all add: swap_cells_def list_update_swap)

lemma tiles_append: "tiles (A @ B) = tiles A @ tiles B"
  by (simp add: tiles_def)

lemma tiles_Cons: "tiles (x # B) = (if x = 0 then tiles B else x # tiles B)"
  by (simp add: tiles_def)

lemma tiles_id: "0 \<notin> set M \<Longrightarrow> tiles M = M"
  by (induction M) (auto simp: tiles_def)

lemma parity_decomposed:
  assumes d: "distinct (A @ x # M @ y # B)" and z: "x = 0 \<or> y = 0" and ev: "even (length M)"
  shows "parity_class (A @ y # M @ x # B) = parity_class (A @ x # M @ y # B)"
proof -
  from d have xy: "x \<noteq> y" and xM: "x \<notin> set M" and yM: "y \<notin> set M" by auto
  from z show ?thesis
  proof
    assume x: "x = 0"
    with xy xM have "y \<noteq> 0" "tiles M = M" by (auto simp: tiles_id)
    with x inversions_prefix_parity [OF yM ev, of "tiles A" "tiles B"] show ?thesis
      by (simp add: parity_class_def tiles_append tiles_Cons)
  next
    assume y: "y = 0"
    with xy yM have "x \<noteq> 0" "tiles M = M" by (auto simp: tiles_id)
    with y inversions_prefix_parity [OF xM ev, of "tiles A" "tiles B"] show ?thesis
      by (simp add: parity_class_def tiles_append tiles_Cons)
  qed
qed

lemma parity_swap_ordered:
  assumes "distinct s" "i < j" "j < length s" "s ! i = 0 \<or> s ! j = 0" "even (j - i - 1)"
  shows "parity_class (swap_cells s i j) = parity_class s"
proof -
  let ?A = "take i s" and ?M = "take (j - i - 1) (drop (i + 1) s)" and ?B = "drop (j + 1) s"
  note dec = swap_cells_decomp [OF assms(2,3)]
  have len: "length ?M = j - i - 1" using assms(2,3) by simp
  from assms(1) dec(1) have "distinct (?A @ s ! i # ?M @ s ! j # ?B)" by simp
  from parity_decomposed [OF this assms(4)] assms(5) len
  have "parity_class (?A @ s ! j # ?M @ s ! i # ?B) =
      parity_class (?A @ s ! i # ?M @ s ! j # ?B)" by simp
  with dec show ?thesis by simp
qed

lemma apply_move_parity:
  assumes v: "valid_state s" and m: "apply_move s m = Some s'"
  shows "parity_class s' = parity_class s"
proof -
  from m obtain e mv where e: "find_empty 0 s = int e" "e < 9" and mv: "mv \<in> set moves"
    and meq: "m = (int e div 3 + fst mv, int e mod 3 + snd mv)"
    and grid: "0 \<le> fst m" "fst m < 3" "0 \<le> snd m" "snd m < 3"
    and s': "s' = swap_cells s e (nat (fst m * 3 + snd m))"
    by (rule apply_move_is_move)
  define t where "t = nat (fst m * 3 + snd m)"
  from grid have t9: "t < 9" by (auto simp: t_def)
  from grid have "int t = fst m * 3 + snd m" by (simp add: t_def)
  then have tint: "int t = int e + (fst mv * 3 + snd mv)"
    by (simp add: meq algebra_simps)
  from mv have "fst mv * 3 + snd mv \<in> {1, - 1, 3, - 3}"
    by (auto simp: moves_def)
  with tint have cases: "t = e + 1 \<or> e = t + 1 \<or> t = e + 3 \<or> e = t + 3"
    by auto
  from v obtain e' where "e' < 9" "find_empty 0 s = int e'" "s ! e' = 0"
    by (rule valid_state_blank)
  with e have blank: "s ! e = 0" by simp
  note d = valid_state_distinct [OF v] and l = valid_state_length [OF v]
  show ?thesis
  proof (cases "e < t")
    case True
    with cases have "even (t - e - 1)" by auto
    from parity_swap_ordered [OF d True _ _ this] t9 l blank show ?thesis
      by (simp add: s' t_def)
  next
    case False
    with cases have lt: "t < e" and "even (e - t - 1)" by auto
    from parity_swap_ordered [OF d lt _ _ this(2)] e(2) l blank
    have "parity_class (swap_cells s t e) = parity_class s" by simp
    then show ?thesis
      by (simp add: s' t_def [symmetric] swap_cells_commute [of s e t])
  qed
qed

lemma replay_parity:
  "valid_state s \<Longrightarrow> replay s p = Some t \<Longrightarrow> parity_class t = parity_class s"
proof (induction p arbitrary: s)
  case Nil
  then show ?case by simp
next
  case (Cons m p)
  from Cons.prems(2) obtain s' where s': "apply_move s m = Some s'" "replay s' p = Some t"
    by (auto split: option.splits)
  from Cons.IH [OF apply_move_valid [OF Cons.prems(1) s'(1)] s'(2)]
    apply_move_parity [OF Cons.prems(1) s'(1)]
  show ?case by simp
qed

lemma parity_unreachable:
  assumes "valid_state s" "parity_class s \<noteq> parity_class t"
  shows "\<not> reachable s t"
  using assms replay_parity unfolding reachable_def by blast

subsection \<open>Every state of the goal's parity class reaches the goal\<close>

text \<open>
  The blank can be walked to the bottom right corner without touching the cells before
  it. With the blank there and the tiles 1..k in place, an explicit sequence of moves puts
  tile k + 1 in place as well, whatever cell it is in; the other tiles do not matter. Six
  such steps fill the two upper rows, and the last row is then 7, 8 or 8, 7: the parity
  class decides which.
\<close>

lemma length9_explicit:
  assumes "length s = 9"
  obtains a0 a1 a2 a3 a4 a5 a6 a7 a8 where "s = [a0, a1, a2, a3, a4, a5, a6, a7, a8]"
proof -
  from assms have "\<exists>a0 a1 a2 a3 a4 a5 a6 a7 a8. s = [a0, a1, a2, a3, a4, a5, a6, a7, a8]"
    by (auto simp: numeral_eq_Suc length_Suc_conv)
  with that show ?thesis by blast
qed

lemmas replay_eval = apply_move_def in_bounds_def swap_cells_def

lemma blank_to_corner:
  assumes v: "valid_state s" and q: "find_empty 0 s = int q"
  shows "\<exists>p s'. replay s p = Some s' \<and> s' ! 8 = 0 \<and> take q s' = take q s"
proof -
  from valid_state_length [OF v] obtain a0 a1 a2 a3 a4 a5 a6 a7 a8
    where s: "s = [a0, a1, a2, a3, a4, a5, a6, a7, a8]" by (rule length9_explicit)
  from valid_state_distinct [OF v]
  have d: "distinct [a0, a1, a2, a3, a4, a5, a6, a7, a8]" unfolding s .
  from v obtain e where "e < 9" "find_empty 0 s = int e" "s ! e = 0"
    by (rule valid_state_blank)
  with q have q9: "q < 9" and z: "s ! q = 0" by simp_all
  from q9 consider "q = 0" | "q = 1" | "q = 2" | "q = 3" | "q = 4" | "q = 5" | "q = 6" | "q = 7" | "q = 8"
    by linarith
  then show ?thesis
  proof cases
    case 1
    with z have z': "a0 = 0" by (simp add: s)
    with d have nz: "a1 \<noteq> 0" "a2 \<noteq> 0" "a3 \<noteq> 0" "a4 \<noteq> 0" "a5 \<noteq> 0" "a6 \<noteq> 0" "a7 \<noteq> 0" "a8 \<noteq> 0"
      by auto
    have "replay s [(0, 1), (0, 2), (1, 2), (2, 2)] =
        Some [a1, a2, a5, a3, a4, a8, a6, a7, 0]"
      unfolding s z' using nz by (simp add: replay_eval)
    then show ?thesis unfolding 1 s by fastforce
  next
    case 2
    with z have z': "a1 = 0" by (simp add: s)
    with d have nz: "a0 \<noteq> 0" "a2 \<noteq> 0" "a3 \<noteq> 0" "a4 \<noteq> 0" "a5 \<noteq> 0" "a6 \<noteq> 0" "a7 \<noteq> 0" "a8 \<noteq> 0"
      by auto
    have "replay s [(0, 2), (1, 2), (2, 2)] =
        Some [a0, a2, a5, a3, a4, a8, a6, a7, 0]"
      unfolding s z' using nz by (simp add: replay_eval)
    then show ?thesis unfolding 2 s by fastforce
  next
    case 3
    with z have z': "a2 = 0" by (simp add: s)
    with d have nz: "a0 \<noteq> 0" "a1 \<noteq> 0" "a3 \<noteq> 0" "a4 \<noteq> 0" "a5 \<noteq> 0" "a6 \<noteq> 0" "a7 \<noteq> 0" "a8 \<noteq> 0"
      by auto
    have "replay s [(1, 2), (2, 2)] =
        Some [a0, a1, a5, a3, a4, a8, a6, a7, 0]"
      unfolding s z' using nz by (simp add: replay_eval)
    then show ?thesis unfolding 3 s by fastforce
  next
    case 4
    with z have z': "a3 = 0" by (simp add: s)
    with d have nz: "a0 \<noteq> 0" "a1 \<noteq> 0" "a2 \<noteq> 0" "a4 \<noteq> 0" "a5 \<noteq> 0" "a6 \<noteq> 0" "a7 \<noteq> 0" "a8 \<noteq> 0"
      by auto
    have "replay s [(1, 1), (1, 2), (2, 2)] =
        Some [a0, a1, a2, a4, a5, a8, a6, a7, 0]"
      unfolding s z' using nz by (simp add: replay_eval)
    then show ?thesis unfolding 4 s by fastforce
  next
    case 5
    with z have z': "a4 = 0" by (simp add: s)
    with d have nz: "a0 \<noteq> 0" "a1 \<noteq> 0" "a2 \<noteq> 0" "a3 \<noteq> 0" "a5 \<noteq> 0" "a6 \<noteq> 0" "a7 \<noteq> 0" "a8 \<noteq> 0"
      by auto
    have "replay s [(1, 2), (2, 2)] =
        Some [a0, a1, a2, a3, a5, a8, a6, a7, 0]"
      unfolding s z' using nz by (simp add: replay_eval)
    then show ?thesis unfolding 5 s by fastforce
  next
    case 6
    with z have z': "a5 = 0" by (simp add: s)
    with d have nz: "a0 \<noteq> 0" "a1 \<noteq> 0" "a2 \<noteq> 0" "a3 \<noteq> 0" "a4 \<noteq> 0" "a6 \<noteq> 0" "a7 \<noteq> 0" "a8 \<noteq> 0"
      by auto
    have "replay s [(2, 2)] =
        Some [a0, a1, a2, a3, a4, a8, a6, a7, 0]"
      unfolding s z' using nz by (simp add: replay_eval)
    then show ?thesis unfolding 6 s by fastforce
  next
    case 7
    with z have z': "a6 = 0" by (simp add: s)
    with d have nz: "a0 \<noteq> 0" "a1 \<noteq> 0" "a2 \<noteq> 0" "a3 \<noteq> 0" "a4 \<noteq> 0" "a5 \<noteq> 0" "a7 \<noteq> 0" "a8 \<noteq> 0"
      by auto
    have "replay s [(2, 1), (2, 2)] =
        Some [a0, a1, a2, a3, a4, a5, a7, a8, 0]"
      unfolding s z' using nz by (simp add: replay_eval)
    then show ?thesis unfolding 7 s by fastforce
  next
    case 8
    with z have z': "a7 = 0" by (simp add: s)
    with d have nz: "a0 \<noteq> 0" "a1 \<noteq> 0" "a2 \<noteq> 0" "a3 \<noteq> 0" "a4 \<noteq> 0" "a5 \<noteq> 0" "a6 \<noteq> 0" "a8 \<noteq> 0"
      by auto
    have "replay s [(2, 2)] =
        Some [a0, a1, a2, a3, a4, a5, a6, a8, 0]"
      unfolding s z' using nz by (simp add: replay_eval)
    then show ?thesis unfolding 8 s by fastforce
  next
    case 9
    with z have z': "a8 = 0" by (simp add: s)
    with d have nz: "a0 \<noteq> 0" "a1 \<noteq> 0" "a2 \<noteq> 0" "a3 \<noteq> 0" "a4 \<noteq> 0" "a5 \<noteq> 0" "a6 \<noteq> 0" "a7 \<noteq> 0"
      by auto
    have "replay s [] =
        Some [a0, a1, a2, a3, a4, a5, a6, a7, 0]"
      unfolding s z' using nz by (simp add: replay_eval)
    then show ?thesis unfolding 9 s by fastforce
  qed
qed

lemma place_tile_1:
  assumes v: "valid_state s" and p: "take 0 s = []" and b: "s ! 8 = 0"
  shows "\<exists>p s'. replay s p = Some s' \<and> take 1 s' = [1]"
proof -
  from valid_state_length [OF v] obtain a0 a1 a2 a3 a4 a5 a6 a7 a8
    where s: "s = [a0, a1, a2, a3, a4, a5, a6, a7, a8]" by (rule length9_explicit)
  from p b have eqs:  "a8 = 0"
    by (simp_all add: s)
  from valid_state_distinct [OF v] have nz: "a0 \<noteq> 0" "a1 \<noteq> 0" "a2 \<noteq> 0" "a3 \<noteq> 0" "a4 \<noteq> 0" "a5 \<noteq> 0" "a6 \<noteq> 0" "a7 \<noteq> 0"
    unfolding s eqs by auto
  from valid_state_set [OF v] have "1 \<in> set s" by simp
  then have "a0 = 1 \<or> a1 = 1 \<or> a2 = 1 \<or> a3 = 1 \<or> a4 = 1 \<or> a5 = 1 \<or> a6 = 1 \<or> a7 = 1"
    unfolding s eqs by simp
  then show ?thesis
  proof (elim disjE)
    assume t: "a0 = 1"
    have "replay s [] =
        Some [1, a1, a2, a3, a4, a5, a6, a7, 0]"
      unfolding s eqs t using nz by (simp add: replay_eval)
    then show ?thesis by fastforce
  next
    assume t: "a1 = 1"
    have "replay s [(2, 1), (2, 0), (1, 0), (0, 0), (0, 1)] =
        Some [1, 0, a2, a0, a4, a5, a3, a6, a7]"
      unfolding s eqs t using nz by (simp add: replay_eval)
    then show ?thesis by fastforce
  next
    assume t: "a2 = 1"
    have "replay s [(2, 1), (1, 1), (0, 1), (0, 2), (1, 2), (1, 1), (1, 0), (0, 0), (0, 1)] =
        Some [1, 0, a5, a0, a3, a1, a6, a4, a7]"
      unfolding s eqs t using nz by (simp add: replay_eval)
    then show ?thesis by fastforce
  next
    assume t: "a3 = 1"
    have "replay s [(2, 1), (1, 1), (0, 1), (0, 0), (1, 0)] =
        Some [1, a0, a2, 0, a1, a5, a6, a4, a7]"
      unfolding s eqs t using nz by (simp add: replay_eval)
    then show ?thesis by fastforce
  next
    assume t: "a4 = 1"
    have "replay s [(2, 1), (2, 0), (1, 0), (1, 1), (0, 1), (0, 0), (1, 0)] =
        Some [1, a0, a2, 0, a1, a5, a3, a6, a7]"
      unfolding s eqs t using nz by (simp add: replay_eval)
    then show ?thesis by fastforce
  next
    assume t: "a5 = 1"
    have "replay s [(2, 1), (1, 1), (1, 2), (0, 2), (0, 1), (1, 1), (1, 0), (0, 0), (0, 1)] =
        Some [1, 0, a1, a0, a3, a2, a6, a4, a7]"
      unfolding s eqs t using nz by (simp add: replay_eval)
    then show ?thesis by fastforce
  next
    assume t: "a6 = 1"
    have "replay s [(2, 1), (1, 1), (1, 0), (2, 0), (2, 1), (1, 1), (0, 1), (0, 0), (1, 0)] =
        Some [1, a0, a2, 0, a1, a5, a4, a3, a7]"
      unfolding s eqs t using nz by (simp add: replay_eval)
    then show ?thesis by fastforce
  next
    assume t: "a7 = 1"
    have "replay s [(1, 2), (1, 1), (2, 1), (2, 0), (1, 0), (1, 1), (0, 1), (0, 0), (1, 0)] =
        Some [1, a0, a2, 0, a1, a4, a3, a6, a5]"
      unfolding s eqs t using nz by (simp add: replay_eval)
    then show ?thesis by fastforce
  qed
qed

lemma place_tile_2:
  assumes v: "valid_state s" and p: "take 1 s = [1]" and b: "s ! 8 = 0"
  shows "\<exists>p s'. replay s p = Some s' \<and> take 2 s' = [1, 2]"
proof -
  from valid_state_length [OF v] obtain a0 a1 a2 a3 a4 a5 a6 a7 a8
    where s: "s = [a0, a1, a2, a3, a4, a5, a6, a7, a8]" by (rule length9_explicit)
  from p b have eqs: "a0 = 1" "a8 = 0"
    by (simp_all add: s)
  from valid_state_distinct [OF v] have nz: "a1 \<noteq> 0" "a2 \<noteq> 0" "a3 \<noteq> 0" "a4 \<noteq> 0" "a5 \<noteq> 0" "a6 \<noteq> 0" "a7 \<noteq> 0"
    unfolding s eqs by auto
  from valid_state_set [OF v] have "2 \<in> set s" by simp
  then have "a1 = 2 \<or> a2 = 2 \<or> a3 = 2 \<or> a4 = 2 \<or> a5 = 2 \<or> a6 = 2 \<or> a7 = 2"
    unfolding s eqs by simp
  then show ?thesis
  proof (elim disjE)
    assume t: "a1 = 2"
    have "replay s [] =
        Some [1, 2, a2, a3, a4, a5, a6, a7, 0]"
      unfolding s eqs t using nz by (simp add: replay_eval)
    then show ?thesis by fastforce
  next
    assume t: "a2 = 2"
    have "replay s [(2, 1), (1, 1), (0, 1), (0, 2)] =
        Some [1, 2, 0, a3, a1, a5, a6, a4, a7]"
      unfolding s eqs t using nz by (simp add: replay_eval)
    then show ?thesis by fastforce
  next
    assume t: "a3 = 2"
    have "replay s [(2, 1), (1, 1), (1, 0), (2, 0), (2, 1), (2, 2), (1, 2), (0, 2), (0, 1), (1, 1)] =
        Some [1, 2, a1, a6, 0, a2, a4, a7, a5]"
      unfolding s eqs t using nz by (simp add: replay_eval)
    then show ?thesis by fastforce
  next
    assume t: "a4 = 2"
    have "replay s [(1, 2), (0, 2), (0, 1), (1, 1)] =
        Some [1, 2, a1, a3, 0, a2, a6, a7, a5]"
      unfolding s eqs t using nz by (simp add: replay_eval)
    then show ?thesis by fastforce
  next
    assume t: "a5 = 2"
    have "replay s [(2, 1), (1, 1), (1, 2), (0, 2), (0, 1), (1, 1)] =
        Some [1, 2, a1, a3, 0, a2, a6, a4, a7]"
      unfolding s eqs t using nz by (simp add: replay_eval)
    then show ?thesis by fastforce
  next
    assume t: "a6 = 2"
    have "replay s [(2, 1), (2, 0), (1, 0), (1, 1), (2, 1), (2, 2), (1, 2), (0, 2), (0, 1), (1, 1)] =
        Some [1, 2, a1, a4, 0, a2, a3, a7, a5]"
      unfolding s eqs t using nz by (simp add: replay_eval)
    then show ?thesis by fastforce
  next
    assume t: "a7 = 2"
    have "replay s [(1, 2), (1, 1), (2, 1), (2, 2), (1, 2), (0, 2), (0, 1), (1, 1)] =
        Some [1, 2, a1, a3, 0, a2, a6, a5, a4]"
      unfolding s eqs t using nz by (simp add: replay_eval)
    then show ?thesis by fastforce
  qed
qed

lemma place_tile_3:
  assumes v: "valid_state s" and p: "take 2 s = [1, 2]" and b: "s ! 8 = 0"
  shows "\<exists>p s'. replay s p = Some s' \<and> take 3 s' = [1, 2, 3]"
proof -
  from valid_state_length [OF v] obtain a0 a1 a2 a3 a4 a5 a6 a7 a8
    where s: "s = [a0, a1, a2, a3, a4, a5, a6, a7, a8]" by (rule length9_explicit)
  from p b have eqs: "a0 = 1" "a1 = 2" "a8 = 0"
    by (simp_all add: s)
  from valid_state_distinct [OF v] have nz: "a2 \<noteq> 0" "a3 \<noteq> 0" "a4 \<noteq> 0" "a5 \<noteq> 0" "a6 \<noteq> 0" "a7 \<noteq> 0"
    unfolding s eqs by auto
  from valid_state_set [OF v] have "3 \<in> set s" by simp
  then have "a2 = 3 \<or> a3 = 3 \<or> a4 = 3 \<or> a5 = 3 \<or> a6 = 3 \<or> a7 = 3"
    unfolding s eqs by simp
  then show ?thesis
  proof (elim disjE)
    assume t: "a2 = 3"
    have "replay s [] =
        Some [1, 2, 3, a3, a4, a5, a6, a7, 0]"
      unfolding s eqs t using nz by (simp add: replay_eval)
    then show ?thesis by fastforce
  next
    assume t: "a3 = 3"
    have "replay s [(2, 1), (1, 1), (1, 0), (0, 0), (0, 1), (1, 1), (1, 2), (0, 2), (0, 1), (0, 0), (1, 0)] =
        Some [1, 2, 3, 0, a5, a2, a6, a4, a7]"
      unfolding s eqs t using nz by (simp add: replay_eval)
    then show ?thesis by fastforce
  next
    assume t: "a4 = 3"
    have "replay s [(2, 1), (2, 0), (1, 0), (0, 0), (0, 1), (1, 1), (1, 2), (0, 2), (0, 1), (0, 0), (1, 0)] =
        Some [1, 2, 3, 0, a5, a2, a3, a6, a7]"
      unfolding s eqs t using nz by (simp add: replay_eval)
    then show ?thesis by fastforce
  next
    assume t: "a5 = 3"
    have "replay s [(2, 1), (2, 0), (1, 0), (0, 0), (0, 1), (0, 2), (1, 2), (1, 1), (0, 1), (0, 0), (1, 0)] =
        Some [1, 2, 3, 0, a2, a4, a3, a6, a7]"
      unfolding s eqs t using nz by (simp add: replay_eval)
    then show ?thesis by fastforce
  next
    assume t: "a6 = 3"
    have "replay s [(2, 1), (2, 0), (1, 0), (1, 1), (1, 2), (0, 2), (0, 1), (1, 1), (2, 1), (2, 2), (1, 2), (1, 1), (0, 1), (0, 2), (1, 2)] =
        Some [1, 2, 3, a4, a5, 0, a3, a7, a2]"
      unfolding s eqs t using nz by (simp add: replay_eval)
    then show ?thesis by fastforce
  next
    assume t: "a7 = 3"
    have "replay s [(1, 2), (0, 2), (0, 1), (1, 1), (2, 1), (2, 2), (1, 2), (1, 1), (0, 1), (0, 2), (1, 2)] =
        Some [1, 2, 3, a3, a4, 0, a6, a5, a2]"
      unfolding s eqs t using nz by (simp add: replay_eval)
    then show ?thesis by fastforce
  qed
qed

lemma place_tile_4:
  assumes v: "valid_state s" and p: "take 3 s = [1, 2, 3]" and b: "s ! 8 = 0"
  shows "\<exists>p s'. replay s p = Some s' \<and> take 4 s' = [1, 2, 3, 4]"
proof -
  from valid_state_length [OF v] obtain a0 a1 a2 a3 a4 a5 a6 a7 a8
    where s: "s = [a0, a1, a2, a3, a4, a5, a6, a7, a8]" by (rule length9_explicit)
  from p b have eqs: "a0 = 1" "a1 = 2" "a2 = 3" "a8 = 0"
    by (simp_all add: s)
  from valid_state_distinct [OF v] have nz: "a3 \<noteq> 0" "a4 \<noteq> 0" "a5 \<noteq> 0" "a6 \<noteq> 0" "a7 \<noteq> 0"
    unfolding s eqs by auto
  from valid_state_set [OF v] have "4 \<in> set s" by simp
  then have "a3 = 4 \<or> a4 = 4 \<or> a5 = 4 \<or> a6 = 4 \<or> a7 = 4"
    unfolding s eqs by simp
  then show ?thesis
  proof (elim disjE)
    assume t: "a3 = 4"
    have "replay s [] =
        Some [1, 2, 3, 4, a4, a5, a6, a7, 0]"
      unfolding s eqs t using nz by (simp add: replay_eval)
    then show ?thesis by fastforce
  next
    assume t: "a4 = 4"
    have "replay s [(2, 1), (2, 0), (1, 0), (1, 1)] =
        Some [1, 2, 3, 4, 0, a5, a3, a6, a7]"
      unfolding s eqs t using nz by (simp add: replay_eval)
    then show ?thesis by fastforce
  next
    assume t: "a5 = 4"
    have "replay s [(2, 1), (1, 1), (1, 2), (2, 2), (2, 1), (2, 0), (1, 0), (1, 1)] =
        Some [1, 2, 3, 4, 0, a7, a3, a6, a4]"
      unfolding s eqs t using nz by (simp add: replay_eval)
    then show ?thesis by fastforce
  next
    assume t: "a6 = 4"
    have "replay s [(2, 1), (1, 1), (1, 0), (2, 0)] =
        Some [1, 2, 3, 4, a3, a5, 0, a4, a7]"
      unfolding s eqs t using nz by (simp add: replay_eval)
    then show ?thesis by fastforce
  next
    assume t: "a7 = 4"
    have "replay s [(1, 2), (1, 1), (2, 1), (2, 0), (1, 0), (1, 1)] =
        Some [1, 2, 3, 4, 0, a4, a3, a6, a5]"
      unfolding s eqs t using nz by (simp add: replay_eval)
    then show ?thesis by fastforce
  qed
qed

lemma place_tile_5:
  assumes v: "valid_state s" and p: "take 4 s = [1, 2, 3, 4]" and b: "s ! 8 = 0"
  shows "\<exists>p s'. replay s p = Some s' \<and> take 5 s' = [1, 2, 3, 4, 5]"
proof -
  from valid_state_length [OF v] obtain a0 a1 a2 a3 a4 a5 a6 a7 a8
    where s: "s = [a0, a1, a2, a3, a4, a5, a6, a7, a8]" by (rule length9_explicit)
  from p b have eqs: "a0 = 1" "a1 = 2" "a2 = 3" "a3 = 4" "a8 = 0"
    by (simp_all add: s)
  from valid_state_distinct [OF v] have nz: "a4 \<noteq> 0" "a5 \<noteq> 0" "a6 \<noteq> 0" "a7 \<noteq> 0"
    unfolding s eqs by auto
  from valid_state_set [OF v] have "5 \<in> set s" by simp
  then have "a4 = 5 \<or> a5 = 5 \<or> a6 = 5 \<or> a7 = 5"
    unfolding s eqs by simp
  then show ?thesis
  proof (elim disjE)
    assume t: "a4 = 5"
    have "replay s [] =
        Some [1, 2, 3, 4, 5, a5, a6, a7, 0]"
      unfolding s eqs t using nz by (simp add: replay_eval)
    then show ?thesis by fastforce
  next
    assume t: "a5 = 5"
    have "replay s [(2, 1), (1, 1), (1, 2)] =
        Some [1, 2, 3, 4, 5, 0, a6, a4, a7]"
      unfolding s eqs t using nz by (simp add: replay_eval)
    then show ?thesis by fastforce
  next
    assume t: "a6 = 5"
    have "replay s [(2, 1), (2, 0), (1, 0), (1, 1), (2, 1), (2, 2), (1, 2), (1, 1), (1, 0), (2, 0), (2, 1), (1, 1), (1, 2)] =
        Some [1, 2, 3, 4, 5, 0, a7, a4, a5]"
      unfolding s eqs t using nz by (simp add: replay_eval)
    then show ?thesis by fastforce
  next
    assume t: "a7 = 5"
    have "replay s [(1, 2), (1, 1), (2, 1)] =
        Some [1, 2, 3, 4, 5, a4, a6, 0, a5]"
      unfolding s eqs t using nz by (simp add: replay_eval)
    then show ?thesis by fastforce
  qed
qed

lemma place_tile_6:
  assumes v: "valid_state s" and p: "take 5 s = [1, 2, 3, 4, 5]" and b: "s ! 8 = 0"
  shows "\<exists>p s'. replay s p = Some s' \<and> take 6 s' = [1, 2, 3, 4, 5, 6]"
proof -
  from valid_state_length [OF v] obtain a0 a1 a2 a3 a4 a5 a6 a7 a8
    where s: "s = [a0, a1, a2, a3, a4, a5, a6, a7, a8]" by (rule length9_explicit)
  from p b have eqs: "a0 = 1" "a1 = 2" "a2 = 3" "a3 = 4" "a4 = 5" "a8 = 0"
    by (simp_all add: s)
  from valid_state_distinct [OF v] have nz: "a5 \<noteq> 0" "a6 \<noteq> 0" "a7 \<noteq> 0"
    unfolding s eqs by auto
  from valid_state_set [OF v] have "6 \<in> set s" by simp
  then have "a5 = 6 \<or> a6 = 6 \<or> a7 = 6"
    unfolding s eqs by simp
  then show ?thesis
  proof (elim disjE)
    assume t: "a5 = 6"
    have "replay s [] =
        Some [1, 2, 3, 4, 5, 6, a6, a7, 0]"
      unfolding s eqs t using nz by (simp add: replay_eval)
    then show ?thesis by fastforce
  next
    assume t: "a6 = 6"
    have "replay s [(2, 1), (2, 0), (1, 0), (1, 1), (2, 1), (2, 2), (1, 2), (1, 1), (1, 0), (2, 0)] =
        Some [1, 2, 3, 4, 5, 6, 0, a7, a5]"
      unfolding s eqs t using nz by (simp add: replay_eval)
    then show ?thesis by fastforce
  next
    assume t: "a7 = 6"
    have "replay s [(2, 1), (2, 0), (1, 0), (1, 1), (1, 2), (2, 2), (2, 1), (1, 1), (1, 0), (2, 0)] =
        Some [1, 2, 3, 4, 5, 6, 0, a5, a6]"
      unfolding s eqs t using nz by (simp add: replay_eval)
    then show ?thesis by fastforce
  qed
qed

lemma to_corner:
  assumes v: "valid_state s" and pk: "take k s = P" and nz: "0 \<notin> set P" and len: "length P = k"
  obtains p1 s1 where "replay s p1 = Some s1" "valid_state s1" "take k s1 = P" "s1 ! 8 = 0"
proof -
  from v obtain q where q: "q < 9" "find_empty 0 s = int q" "s ! q = 0"
    by (rule valid_state_blank)
  have kq: "k \<le> q"
  proof (rule ccontr)
    assume "\<not> k \<le> q"
    then have "q < k" by simp
    then have "P ! q = s ! q" unfolding pk [symmetric] by simp
    moreover have "P ! q \<in> set P" using \<open>q < k\<close> len by simp
    ultimately show False using nz q(3) by simp
  qed
  from blank_to_corner [OF v q(2)] obtain p1 s1 where
    r: "replay s p1 = Some s1" "s1 ! 8 = 0" "take q s1 = take q s" by blast
  have "take k s1 = take k (take q s1)" using kq by (simp add: min_def)
  also have "\<dots> = take k s" unfolding r(3) using kq by (simp add: min_def)
  finally have "take k s1 = P" using pk by simp
  with r replay_valid [OF v r(1)] that show ?thesis by blast
qed

lemma reach_step:
  assumes v: "valid_state s" and pk: "take k s = P" and nz: "0 \<notin> set P" and len: "length P = k"
    and place: "\<And>s1. valid_state s1 \<Longrightarrow> take k s1 = P \<Longrightarrow> s1 ! 8 = 0
        \<Longrightarrow> \<exists>p s'. replay s1 p = Some s' \<and> take k' s' = P'"
  obtains p s' where "replay s p = Some s'" "valid_state s'" "take k' s' = P'"
proof -
  from to_corner [OF v pk nz len] obtain p1 s1 where
    s1: "replay s p1 = Some s1" "valid_state s1" "take k s1 = P" "s1 ! 8 = 0" by blast
  from place [OF s1(2,3,4)] obtain p2 s2 where
    s2: "replay s1 p2 = Some s2" "take k' s2 = P'" by blast
  from s1(1) s2(1) have "replay s (p1 @ p2) = Some s2" by (simp add: replay_append)
  with s2(2) replay_valid [OF s1(2) s2(1)] that show ?thesis by blast
qed

lemma reach_two_rows:
  assumes v: "valid_state s"
  obtains p s' where "replay s p = Some s'" "valid_state s'" "take 6 s' = [1, 2, 3, 4, 5, 6]"
proof -
  have t0: "take 0 s = []" by simp
  have n0: "0 \<notin> set ([] :: int list)" "length ([] :: int list) = 0" by simp_all
  from reach_step [OF v t0 n0 place_tile_1] obtain p1 s1 where
    1: "replay s p1 = Some s1" "valid_state s1" "take 1 s1 = [1]" by blast
  have n1: "0 \<notin> set ([1] :: int list)" "length ([1] :: int list) = 1" by simp_all
  from reach_step [OF 1(2,3) n1 place_tile_2] obtain p2 s2 where
    2: "replay s1 p2 = Some s2" "valid_state s2" "take 2 s2 = [1, 2]" by blast
  have n2: "0 \<notin> set ([1, 2] :: int list)" "length ([1, 2] :: int list) = 2" by simp_all
  from reach_step [OF 2(2,3) n2 place_tile_3] obtain p3 s3 where
    3: "replay s2 p3 = Some s3" "valid_state s3" "take 3 s3 = [1, 2, 3]" by blast
  have n3: "0 \<notin> set ([1, 2, 3] :: int list)" "length ([1, 2, 3] :: int list) = 3" by simp_all
  from reach_step [OF 3(2,3) n3 place_tile_4] obtain p4 s4 where
    4: "replay s3 p4 = Some s4" "valid_state s4" "take 4 s4 = [1, 2, 3, 4]" by blast
  have n4: "0 \<notin> set ([1, 2, 3, 4] :: int list)" "length ([1, 2, 3, 4] :: int list) = 4" by simp_all
  from reach_step [OF 4(2,3) n4 place_tile_5] obtain p5 s5 where
    5: "replay s4 p5 = Some s5" "valid_state s5" "take 5 s5 = [1, 2, 3, 4, 5]" by blast
  have n5: "0 \<notin> set ([1, 2, 3, 4, 5] :: int list)" "length ([1, 2, 3, 4, 5] :: int list) = 5" by simp_all
  from reach_step [OF 5(2,3) n5 place_tile_6] obtain p6 s6 where
    6: "replay s5 p6 = Some s6" "valid_state s6" "take 6 s6 = [1, 2, 3, 4, 5, 6]" by blast
  from 1(1) 2(1) 3(1) 4(1) 5(1) 6(1)
  have "replay s (p1 @ p2 @ p3 @ p4 @ p5 @ p6) = Some s6"
    by (simp add: replay_append)
  with 6(2,3) that show ?thesis by blast
qed

lemma same_parity_reachable:
  assumes v: "valid_state s" and par: "parity_class s = parity_class goal_state"
  shows "reachable s goal_state"
proof -
  from reach_two_rows [OF v] obtain p s' where
    s': "replay s p = Some s'" "valid_state s'" "take 6 s' = [1, 2, 3, 4, 5, 6]" by blast
  have n6: "0 \<notin> set ([1, 2, 3, 4, 5, 6] :: int list)"
    "length ([1, 2, 3, 4, 5, 6] :: int list) = 6" by simp_all
  from to_corner [OF s'(2,3) n6] obtain p1 s1 where
    s1: "replay s' p1 = Some s1" "valid_state s1" "take 6 s1 = [1, 2, 3, 4, 5, 6]" "s1 ! 8 = 0"
    by blast
  from s'(1) s1(1) have r: "replay s (p @ p1) = Some s1" by (simp add: replay_append)
  from replay_parity [OF v r] par have par1: "parity_class s1 = parity_class goal_state"
    by simp
  from valid_state_length [OF s1(2)] obtain a0 a1 a2 a3 a4 a5 a6 a7 a8
    where e: "s1 = [a0, a1, a2, a3, a4, a5, a6, a7, a8]" by (rule length9_explicit)
  from s1(3,4) have eqs: "a0 = 1" "a1 = 2" "a2 = 3" "a3 = 4" "a4 = 5" "a5 = 6" "a8 = 0"
    by (simp_all add: e)
  from valid_state_set [OF s1(2)] have "7 \<in> set s1" "8 \<in> set s1" by simp_all
  then have "(a6 = 7 \<or> a7 = 7) \<and> (a6 = 8 \<or> a7 = 8)"
    unfolding e eqs by simp
  then have "(a6 = 7 \<and> a7 = 8) \<or> (a6 = 8 \<and> a7 = 7)" by auto
  then have "s1 = goal_state"
  proof
    assume "a6 = 7 \<and> a7 = 8"
    then show ?thesis by (simp add: e eqs goal_state_def)
  next
    assume "a6 = 8 \<and> a7 = 7"
    with par1 show ?thesis
      by (simp add: e eqs goal_state_def parity_class_def tiles_def)
  qed
  with r show ?thesis unfolding reachable_def by blast
qed

subsection \<open>The states the loop reaches\<close>

lemma iteration_continues:
  assumes "search_inv init st" "closed_inv {} st" "iteration st = Inr st2"
  shows "search_inv init st2 \<and> closed_inv {} st2 \<and> (st2, st) \<in> search_order
     \<and> (\<forall>x xs m s'. open_heap st = x # xs \<longrightarrow>
            apply_move (snd (pq_min x xs)) m = Some s' \<longrightarrow> s' \<in> dom (g_score st2))"
  using iteration_step [OF assms(1,2)] unfolding assms(3) by simp

lemma iterations_inv:
  "search_inv init st \<Longrightarrow> closed_inv {} st \<Longrightarrow> iterations n st = Some st'
    \<Longrightarrow> search_inv init st' \<and> closed_inv {} st'"
proof (induction n arbitrary: st)
  case 0
  then show ?case by simp
next
  case (Suc n)
  from Suc.prems(3) obtain st2 where st2: "iteration st = Inr st2" "iterations n st2 = Some st'"
    by (auto split: sum.splits)
  from iteration_continues [OF Suc.prems(1,2) st2(1)]
  have "search_inv init st2" "closed_inv {} st2" by simp_all
  from Suc.IH [OF this st2(2)] show ?case .
qed

lemma reached_inv:
  assumes "valid_state init" "iterations n (initial_search init) = Some st"
  shows "search_inv init st" "closed_inv {} st"
  using iterations_inv [OF initial_search_inv [OF assms(1)] initial_closed_inv assms(2)]
  by simp_all

lemma sentinel_out_of_bounds:
  assumes "find_empty 0 s = - 1"
  shows "expand s st = Inl Out_Of_Bounds"
  using assms
  by (simp add: expand_def moves_def visit_neighbor_def in_bounds_def cdiv_def cmod_def
      grid_size_def)

lemma frontier_states_valid:
  assumes "search_inv init st" "entry \<in> set (open_heap st)"
  shows "valid_state (snd entry)"
proof -
  from assms(2) have "snd entry \<in> set (map snd (open_heap st))" by simp
  with assms(1) show ?thesis unfolding search_inv_def heap_inv_def by blast
qed

lemma valid_find_empty_in_bounds: "valid_state s \<Longrightarrow> in_bounds (find_empty 0 s)"
  by (erule valid_state_blank) (simp add: in_bounds_def)


subsection \<open>The frontier holds only states with a g-score\<close>

lemma visit_neighbor_scored:
  assumes "g_score st cur \<noteq> None" "frontier_scored st"
  shows "case visit_neighbor cur e er ec mv st of
           Inl err \<Rightarrow> err = Out_Of_Bounds
         | Inr st' \<Rightarrow> g_score st' cur \<noteq> None \<and> frontier_scored st'"
  using assms
  by (auto simp: visit_neighbor_def frontier_scored_def pq_push_def Let_def
      split: option.splits)

lemma explore_neighbors_scored:
  "g_score st cur \<noteq> None \<Longrightarrow> frontier_scored st \<Longrightarrow>
    (case explore_neighbors cur e er ec ms st of
       Inl err \<Rightarrow> err = Out_Of_Bounds
     | Inr st' \<Rightarrow> frontier_scored st')"
proof (induction ms arbitrary: st)
  case Nil
  then show ?case by simp
next
  case (Cons mv ms)
  show ?case
  proof (cases "visit_neighbor cur e er ec mv st")
    case (Inl err)
    with visit_neighbor_scored [OF Cons.prems, of e er ec mv] show ?thesis by simp
  next
    case (Inr st')
    with visit_neighbor_scored [OF Cons.prems, of e er ec mv]
    have "g_score st' cur \<noteq> None" "frontier_scored st'" by simp_all
    from Cons.IH [OF this] Inr show ?thesis by simp
  qed
qed

lemma iteration_scored:
  assumes "frontier_scored st"
  shows "case iteration st of
           Inl r \<Rightarrow> r \<noteq> Some (Inl Out_Of_Range)
         | Inr st' \<Rightarrow> frontier_scored st'"
proof (cases "open_heap st")
  case Nil
  then show ?thesis by (simp add: iteration_def)
next
  case (Cons x xs)
  define cur where "cur = snd (pq_min x xs)"
  define st1 where "st1 = st\<lparr>open_heap := pq_pop (pq_min x xs) (open_heap st),
                        open_set_hash := open_set_hash st - {cur}\<rparr>"
  have it: "iteration st =
      (if cur = goal_state then
         Inl (map_option (\<lambda>p. Inr (Some p)) (reconstruct_move_path (came_from st1) cur))
       else (case expand cur st1 of Inl e \<Rightarrow> Inl (Some (Inl e)) | Inr st2 \<Rightarrow> Inr st2))"
    by (simp add: iteration_def Cons Let_def st1_def cur_def)
  have "pq_min x xs \<in> set (open_heap st)" unfolding Cons by (rule pq_min_mem)
  with assms have g: "g_score st1 cur \<noteq> None"
    by (auto simp: frontier_scored_def cur_def st1_def)
  from assms have f: "frontier_scored st1"
    using set_remove1_subset [of "pq_min x xs" "open_heap st"]
    by (auto simp: frontier_scored_def st1_def pq_pop_def)
  from explore_neighbors_scored [OF g f]
  have ex: "case expand cur st1 of Inl err \<Rightarrow> err = Out_Of_Bounds
                                 | Inr st' \<Rightarrow> frontier_scored st'"
    by (simp add: expand_def Let_def)
  show ?thesis
  proof (cases "cur = goal_state")
    case True
    with it show ?thesis by (cases "reconstruct_move_path (came_from st1) cur") simp_all
  next
    case False
    with it ex show ?thesis by (cases "expand cur st1") simp_all
  qed
qed

lemma search_loop_scored:
  assumes "search_loop st = Some r"
  shows "frontier_scored st \<longrightarrow> r \<noteq> Inl Out_Of_Range"
proof (rule search_loop.raw_induct
    [where P = "\<lambda>st r. frontier_scored st \<longrightarrow> r \<noteq> Inl Out_Of_Range", OF _ assms])
  fix loop st r
  assume IH: "\<And>x y. loop x = Some y \<Longrightarrow> frontier_scored x \<longrightarrow> y \<noteq> Inl Out_Of_Range"
    and eq: "(case iteration st of Inl r \<Rightarrow> r | Inr st2 \<Rightarrow> loop st2) = Some r"
  show "frontier_scored st \<longrightarrow> r \<noteq> Inl Out_Of_Range"
  proof
    assume inv: "frontier_scored st"
    show "r \<noteq> Inl Out_Of_Range"
    proof (cases "iteration st")
      case (Inl x)
      with iteration_scored [OF inv] eq show ?thesis by auto
    next
      case (Inr st2)
      with iteration_scored [OF inv] have "frontier_scored st2" by simp
      moreover from eq Inr have "loop st2 = Some r" by simp
      ultimately show ?thesis using IH by blast
    qed
  qed
qed

lemma solve_no_out_of_range: "solve_with_a_star s \<noteq> Some (Inl Out_Of_Range)"
proof (cases "s = goal_state")
  case True
  then show ?thesis by (simp add: solve_with_a_star_def)
next
  case False
  have "frontier_scored (initial_search s)"
    by (simp add: frontier_scored_def initial_search_def pq_push_def)
  with search_loop_scored [of "initial_search s"] False show ?thesis
    by (auto simp: solve_with_a_star_def)
qed


section \<open>Termination and the returned path\<close>

text \<open>
  C6: on every valid initial state the call terminates, and it returns a path or
  \<^verbatim>\<open>std::nullopt\<close>: the loop makes finitely many passes and neither failure occurs.
\<close>

theorem solve_terminates:
  assumes "valid_state init"
  shows "\<exists>r. solve_with_a_star init = Some (Inr r)"
  using solve_total [OF assms] by blast

theorem solve_terminates_witness:
  "valid_state [1, 2, 3, 4, 5, 6, 0, 7, 8]
   \<and> (\<exists>r. solve_with_a_star [1, 2, 3, 4, 5, 6, 0, 7, 8] = Some (Inr r))"
proof -
  have v: "valid_state [1, 2, 3, 4, 5, 6, 0, 7, 8]"
    by (simp add: valid_state_def)
  from v solve_terminates [OF v] show ?thesis by simp
qed

text \<open>
  C2: when the solver returns a path on a valid initial state, replaying the path from the
  initial state, each move swapping the blank with the named cell next to it, ends on the
  goal configuration.
\<close>

theorem returned_path_replays:
  assumes "valid_state init" and "solve_with_a_star init = Some (Inr (Some p))"
  shows "replay init p = Some goal_state"
  using solve_total [OF assms(1)] assms(2) by auto

theorem returned_path_replays_witness:
  "valid_state [1, 2, 3, 4, 5, 6, 0, 7, 8]
   \<and> solve_with_a_star [1, 2, 3, 4, 5, 6, 0, 7, 8] = Some (Inr (Some [(2, 1), (2, 2)]))
   \<and> replay [1, 2, 3, 4, 5, 6, 0, 7, 8] [(2, 1), (2, 2)] = Some goal_state"
proof -
  have v: "valid_state [1, 2, 3, 4, 5, 6, 0, 7, 8]"
    by (simp add: valid_state_def)
  have r: "solve_with_a_star [1, 2, 3, 4, 5, 6, 0, 7, 8] = Some (Inr (Some [(2, 1), (2, 2)]))"
    by code_simp
  from v r returned_path_replays [OF v r] show ?thesis by simp
qed

section \<open>Absence of a solution\<close>

text \<open>
  C3: on every valid initial state the solver returns \<^verbatim>\<open>std::nullopt\<close> exactly when no
  sequence of legal moves leads from the state to the goal, which is exactly when the state
  lies in the parity class opposite to the goal's; and on \<open>[1,2,3,4,5,6,8,7,0]\<close> it
  returns \<^verbatim>\<open>std::nullopt\<close>.
\<close>

theorem absent_iff_unreachable:
  assumes "valid_state init"
  shows "(solve_with_a_star init = Some (Inr None) \<longleftrightarrow> \<not> reachable init goal_state)
     \<and> (\<not> reachable init goal_state \<longleftrightarrow> parity_class init \<noteq> parity_class goal_state)
     \<and> solve_with_a_star [1, 2, 3, 4, 5, 6, 8, 7, 0] = Some (Inr None)"
proof -
  have absent: "solve_with_a_star s = Some (Inr None) \<longleftrightarrow> \<not> reachable s goal_state"
    if "valid_state s" for s
  proof -
    from solve_total [OF that] obtain r where
      r: "solve_with_a_star s = Some (Inr r)"
         "case r of None \<Rightarrow> \<not> reachable s goal_state
                  | Some p \<Rightarrow> replay s p = Some goal_state"
      by blast
    show ?thesis
    proof (cases r)
      case None
      with r show ?thesis by simp
    next
      case (Some p)
      with r have "reachable s goal_state" by (auto simp: reachable_def)
      with r Some show ?thesis by simp
    qed
  qed
  have parity: "\<not> reachable s goal_state \<longleftrightarrow> parity_class s \<noteq> parity_class goal_state"
    if "valid_state s" for s
    using parity_unreachable [OF that, of goal_state] same_parity_reachable [OF that]
    by blast
  have v: "valid_state [1, 2, 3, 4, 5, 6, 8, 7, 0]"
    by (simp add: valid_state_def)
  have "parity_class [1, 2, 3, 4, 5, 6, 8, 7, 0] \<noteq> parity_class goal_state"
    by (simp add: parity_class_def tiles_def goal_state_def)
  with absent [OF v] parity [OF v]
  have "solve_with_a_star [1, 2, 3, 4, 5, 6, 8, 7, 0] = Some (Inr None)" by simp
  with absent [OF assms] parity [OF assms] show ?thesis by simp
qed

theorem absent_iff_unreachable_witness:
  "valid_state [2, 1, 3, 4, 5, 6, 7, 8, 0]
   \<and> parity_class [2, 1, 3, 4, 5, 6, 7, 8, 0] \<noteq> parity_class goal_state
   \<and> \<not> reachable [2, 1, 3, 4, 5, 6, 7, 8, 0] goal_state
   \<and> solve_with_a_star [2, 1, 3, 4, 5, 6, 7, 8, 0] = Some (Inr None)"
proof -
  have v: "valid_state [2, 1, 3, 4, 5, 6, 7, 8, 0]"
    by (simp add: valid_state_def)
  have p: "parity_class [2, 1, 3, 4, 5, 6, 7, 8, 0] \<noteq> parity_class goal_state"
    by (simp add: parity_class_def tiles_def goal_state_def)
  from absent_iff_unreachable [OF v] v p show ?thesis by simp
qed

section \<open>The heuristic\<close>

text \<open>
  C5: on every valid state the value \<^verbatim>\<open>heuristic\<close> computes is the sum, over the non-blank
  tiles, of the Manhattan distance between the tile's cell and its goal cell; it is not
  negative; and it is at most the length of any sequence of legal moves that leads from
  the state to the goal, so at most the minimum number of moves.
\<close>

theorem heuristic_admissible:
  assumes "valid_state s"
  shows "heuristic s = manhattan_sum s \<and> 0 \<le> heuristic s
     \<and> (\<forall>p. replay s p = Some goal_state \<longrightarrow> heuristic s \<le> int (length p))"
  using heuristic_manhattan_sum [OF assms] heuristic_nonneg [of s]
    heuristic_replay [OF assms, of _ goal_state]
  by (simp add: heuristic_goal)

theorem heuristic_admissible_witness:
  "valid_state [1, 2, 3, 4, 5, 6, 0, 7, 8]
   \<and> replay [1, 2, 3, 4, 5, 6, 0, 7, 8] [(2, 1), (2, 2)] = Some goal_state
   \<and> manhattan_sum [1, 2, 3, 4, 5, 6, 0, 7, 8] = 2
   \<and> heuristic [1, 2, 3, 4, 5, 6, 0, 7, 8] = manhattan_sum [1, 2, 3, 4, 5, 6, 0, 7, 8]
   \<and> 0 \<le> heuristic [1, 2, 3, 4, 5, 6, 0, 7, 8]
   \<and> heuristic [1, 2, 3, 4, 5, 6, 0, 7, 8] \<le> int (length [(2, 1), (2, 2) :: Move])"
proof -
  have v: "valid_state [1, 2, 3, 4, 5, 6, 0, 7, 8]"
    by (simp add: valid_state_def)
  have r: "replay [1, 2, 3, 4, 5, 6, 0, 7, 8] [(2, 1), (2, 2)] = Some goal_state"
    by code_simp
  have m: "manhattan_sum [1, 2, 3, 4, 5, 6, 0, 7, 8] = 2"
    by code_simp
  from heuristic_admissible [OF v] r
  have "heuristic [1, 2, 3, 4, 5, 6, 0, 7, 8] \<le> int (length [(2, 1), (2, 2) :: Move])"
    by blast
  with heuristic_admissible [OF v] v r m show ?thesis by simp
qed

section \<open>Array accesses\<close>

text \<open>
  C10: on a valid initial state, every state in the frontier at the start of any pass has a
  blank, which the scan finds at an index in [0, 9); a tile cell on the grid has its index
  in [0, 9) as well; so neither a pass nor the whole call reaches the out-of-bounds access,
  which the sentinel -1 would cause at the first offset.
\<close>

theorem array_accesses_in_bounds:
  assumes "valid_state init" and "iterations n (initial_search init) = Some st"
  shows "(\<forall>entry \<in> set (open_heap st). in_bounds (find_empty 0 (snd entry)))
    \<and> (\<forall>tr tc. 0 \<le> tr \<and> tr < grid_size \<and> 0 \<le> tc \<and> tc < grid_size
          \<longrightarrow> in_bounds (tr * grid_size + tc))
    \<and> iteration st \<noteq> Inl (Some (Inl Out_Of_Bounds))
    \<and> solve_with_a_star init \<noteq> Some (Inl Out_Of_Bounds)
    \<and> (\<forall>s st'. find_empty 0 s = - 1 \<longrightarrow> expand s st' = Inl Out_Of_Bounds)"
proof -
  note inv = reached_inv [OF assms]
  have 1: "\<forall>entry \<in> set (open_heap st). in_bounds (find_empty 0 (snd entry))"
    using frontier_states_valid [OF inv(1)] by (blast intro: valid_find_empty_in_bounds)
  have 2: "\<forall>tr tc. 0 \<le> tr \<and> tr < grid_size \<and> 0 \<le> tc \<and> tc < grid_size
          \<longrightarrow> in_bounds (tr * grid_size + tc)"
    by (simp add: grid_size_def tile_index_bounds)
  have 3: "iteration st \<noteq> Inl (Some (Inl Out_Of_Bounds))"
  proof
    assume a: "iteration st = Inl (Some (Inl Out_Of_Bounds))"
    from iteration_step [OF inv] show False unfolding a by simp
  qed
  have 4: "solve_with_a_star init \<noteq> Some (Inl Out_Of_Bounds)"
    using solve_total [OF assms(1)] by auto
  from 1 2 3 4 sentinel_out_of_bounds show ?thesis by blast
qed

theorem array_accesses_in_bounds_witness:
  "valid_state [1, 2, 3, 4, 5, 6, 0, 7, 8]
   \<and> (\<exists>st. iterations 1 (initial_search [1, 2, 3, 4, 5, 6, 0, 7, 8]) = Some st
        \<and> open_heap st \<noteq> []
        \<and> (\<forall>entry \<in> set (open_heap st). in_bounds (find_empty 0 (snd entry)))
        \<and> iteration st \<noteq> Inl (Some (Inl Out_Of_Bounds)))
   \<and> solve_with_a_star [1, 2, 3, 4, 5, 6, 0, 7, 8] \<noteq> Some (Inl Out_Of_Bounds)"
proof -
  have v: "valid_state [1, 2, 3, 4, 5, 6, 0, 7, 8]"
    by (simp add: valid_state_def)
  have "case iterations 1 (initial_search [1, 2, 3, 4, 5, 6, 0, 7, 8]) of
          None \<Rightarrow> False | Some st \<Rightarrow> open_heap st \<noteq> []"
    by code_simp
  then obtain st where st: "iterations 1 (initial_search [1, 2, 3, 4, 5, 6, 0, 7, 8]) = Some st"
      "open_heap st \<noteq> []"
    by (auto split: option.splits)
  from array_accesses_in_bounds [OF v st(1)] v st show ?thesis by blast
qed

section \<open>The frontier\<close>

text \<open>
  C4, as the code has it: at the start of every pass no state has two entries in the
  frontier, and \<open>open_set_hash\<close> is exactly the set of states that have one; and a pass
  that continues the loop has expanded the popped entry, every legal successor of its
  state being recorded, whatever the entry's priority.
\<close>

theorem frontier_has_no_duplicates:
  assumes "valid_state init" and "iterations n (initial_search init) = Some st"
  shows "distinct (map snd (open_heap st))
    \<and> set (map snd (open_heap st)) = open_set_hash st
    \<and> (\<forall>x xs st2 m s'. open_heap st = x # xs \<longrightarrow> iteration st = Inr st2 \<longrightarrow>
          apply_move (snd (pq_min x xs)) m = Some s' \<longrightarrow> s' \<in> dom (g_score st2))"
proof -
  note inv = reached_inv [OF assms]
  from inv(1) have "heap_inv st" by (simp add: search_inv_def)
  moreover have "\<forall>x xs st2 m s'. open_heap st = x # xs \<longrightarrow> iteration st = Inr st2 \<longrightarrow>
          apply_move (snd (pq_min x xs)) m = Some s' \<longrightarrow> s' \<in> dom (g_score st2)"
  proof (intro allI impI)
    fix x xs st2 m s'
    assume a: "open_heap st = x # xs" "iteration st = Inr st2"
      "apply_move (snd (pq_min x xs)) m = Some s'"
    from iteration_continues [OF inv a(2)]
    have "\<forall>x xs m s'. open_heap st = x # xs \<longrightarrow>
        apply_move (snd (pq_min x xs)) m = Some s' \<longrightarrow> s' \<in> dom (g_score st2)"
      by simp
    with a show "s' \<in> dom (g_score st2)" by blast
  qed
  ultimately show ?thesis by (simp add: heap_inv_def)
qed

theorem frontier_has_no_duplicates_witness:
  "valid_state [1, 2, 3, 4, 5, 6, 0, 7, 8]
   \<and> (\<exists>st. iterations 1 (initial_search [1, 2, 3, 4, 5, 6, 0, 7, 8]) = Some st
        \<and> distinct (map snd (open_heap st))
        \<and> set (map snd (open_heap st)) = open_set_hash st
        \<and> (\<exists>x xs st2. open_heap st = x # xs \<and> iteration st = Inr st2
              \<and> pq_min x xs = (2, [1, 2, 3, 4, 5, 6, 7, 0, 8])
              \<and> apply_move [1, 2, 3, 4, 5, 6, 7, 0, 8] (2, 2) = Some goal_state
              \<and> goal_state \<in> dom (g_score st2)))"
proof -
  have v: "valid_state [1, 2, 3, 4, 5, 6, 0, 7, 8]"
    by (simp add: valid_state_def)
  have "case iterations 1 (initial_search [1, 2, 3, 4, 5, 6, 0, 7, 8]) of
          None \<Rightarrow> False
        | Some st \<Rightarrow>
            (case open_heap st of
               [] \<Rightarrow> False
             | x # xs \<Rightarrow> pq_min x xs = (2, [1, 2, 3, 4, 5, 6, 7, 0, 8])
                 \<and> (case iteration st of Inl r \<Rightarrow> False | Inr st2 \<Rightarrow> True))"
    by code_simp
  then obtain st x xs st2 where st:
      "iterations 1 (initial_search [1, 2, 3, 4, 5, 6, 0, 7, 8]) = Some st"
      "open_heap st = x # xs" "pq_min x xs = (2, [1, 2, 3, 4, 5, 6, 7, 0, 8])"
      "iteration st = Inr st2"
    by (auto split: option.splits list.splits sum.splits)
  have m: "apply_move [1, 2, 3, 4, 5, 6, 7, 0, 8] (2, 2) = Some goal_state"
    by code_simp
  from frontier_has_no_duplicates [OF v st(1)] st m
  have "goal_state \<in> dom (g_score st2)" by simp
  with frontier_has_no_duplicates [OF v st(1)] v st m show ?thesis by blast
qed

text \<open>
  C4, as stated, fails: the loop compares no g-scores before it expands. From
  \<open>[0,4,3,2,1,6,8,7,5]\<close>, the state \<open>[1,0,3,4,2,6,8,7,5]\<close> is pushed with g-score 7 and
  priority 12 in the seventh pass; the eleventh pass lowers its g-score to 5 and leaves the
  entry alone. The twelfth pass pops that stale entry and expands it: the successor
  \<open>[1,3,0,4,2,6,8,7,5]\<close>, unknown before, is recorded with g-score 6 and this
  predecessor.
\<close>

theorem stale_entry_is_expanded:
  "(case iterations 11 (initial_search [0, 4, 3, 2, 1, 6, 8, 7, 5]) of
      None \<Rightarrow> False
    | Some st \<Rightarrow>
        (case open_heap st of
           [] \<Rightarrow> False
         | x # xs \<Rightarrow>
             pq_min x xs = (12, [1, 0, 3, 4, 2, 6, 8, 7, 5])
             \<and> entry_stale st (pq_min x xs)
             \<and> g_score st [1, 0, 3, 4, 2, 6, 8, 7, 5] = Some 5
             \<and> heuristic [1, 0, 3, 4, 2, 6, 8, 7, 5] = 5
             \<and> g_score st [1, 3, 0, 4, 2, 6, 8, 7, 5] = None
             \<and> (case iteration st of
                  Inl r \<Rightarrow> False
                | Inr st2 \<Rightarrow>
                    g_score st2 [1, 3, 0, 4, 2, 6, 8, 7, 5] = Some 6
                    \<and> came_from st2 [1, 3, 0, 4, 2, 6, 8, 7, 5]
                        = Some ([1, 0, 3, 4, 2, 6, 8, 7, 5], (0, 2)))))"
  by code_simp

section \<open>The binding\<close>

text \<open>
  C9: the binding raises its error exactly when the input does not have nine elements;
  on an input of nine elements its outcome is the outcome of the solver on that input,
  unchanged. No \<^verbatim>\<open>std::out_of_range\<close> leaves the solver either, so the size check is the
  only source of an exception.
\<close>

theorem binding_solve_checks_count:
  "((\<exists>e. binding_solve state_list = Inl e) \<longleftrightarrow> length state_list \<noteq> 9)
   \<and> binding_solve state_list =
       (if length state_list = 9 then Inr (solve_with_a_star state_list)
        else Inl (Runtime_Error ''Input state must contain exactly 9 integers.''))
   \<and> solve_with_a_star state_list \<noteq> Some (Inl Out_Of_Range)"
  using solve_no_out_of_range [of state_list] by (simp add: binding_solve_def)

section \<open>Concrete runs\<close>

text \<open>
  C7: the solver applied to the goal configuration returns the empty path; the test in its
  first line returns before a frontier exists, so the result does not mention the loop.
\<close>

theorem solve_goal_empty_path:
  "solve_with_a_star goal_state = Some (Inr (Some []))"
  by (simp add: solve_with_a_star_def)

text \<open>
  C8: on \<open>[1,2,3,4,5,6,7,0,8]\<close> the solver returns the path of the single move (2, 2), and
  (2, 2) is the cell that holds tile 8.
\<close>

theorem solve_one_move:
  "solve_with_a_star [1, 2, 3, 4, 5, 6, 7, 0, 8] = Some (Inr (Some [(2, 2)]))
   \<and> [1, 2, 3, 4, 5, 6, 7, 0, 8] ! nat (2 * grid_size + 2) = (8 :: int)"
  by code_simp

text \<open>
  C1: the returned path is not always a shortest one. On the valid state
  \<open>[5,0,6,3,1,2,4,7,8]\<close> the solver returns a path of 15 moves, while a path of 13 legal
  moves replays from that state to the goal. The state \<open>[1,0,6,3,5,2,4,7,8]\<close> is pushed with
  f-score 15 before a shorter way to it is found; the shorter g-score is recorded, but the
  entry keeps its old priority, and the goal is popped first.
\<close>

theorem solve_returns_longer_path:
  "valid_state [5, 0, 6, 3, 1, 2, 4, 7, 8]
   \<and> solve_with_a_star [5, 0, 6, 3, 1, 2, 4, 7, 8] =
       Some (Inr (Some [(0, 0), (1, 0), (1, 1), (0, 1), (0, 0), (1, 0), (2, 0), (2, 1),
                        (1, 1), (1, 2), (0, 2), (0, 1), (1, 1), (2, 1), (2, 2)]))
   \<and> replay [5, 0, 6, 3, 1, 2, 4, 7, 8]
         [(1, 1), (1, 0), (0, 0), (0, 1), (1, 1), (1, 2), (0, 2), (0, 1), (1, 1), (1, 0),
          (2, 0), (2, 1), (2, 2)] = Some goal_state"
  by code_simp

end
